theory Spec2Isabelle
  imports Main "HOL-Library.Word"
begin

unbundle bit_operations_syntax

section \<open>Data of the DRM backend (backend/drm/drm.c)\<close>

text \<open>
  The enumerations and structures that drm.c reads and writes. The display states and the
  event kinds are the ones drm.c names; the libdrm structures carry the fields drm.c uses.
  A pointer into \<open>backend->displays\<close> is the index of the slot, a pointer into
  \<open>disp->modes\<close> is the index of the mode, and a NULL pointer is \<open>None\<close>.
\<close>

datatype wlr_drm_display_state =
  DRM_DISP_INVALID | DRM_DISP_DISCONNECTED | DRM_DISP_NEEDS_MODESET | DRM_DISP_CONNECTED

datatype wlr_drm_event_type = DRM_EV_DISPLAY_ADD | DRM_EV_DISPLAY_REM | DRM_EV_RENDER

datatype drmModeConnection =
  DRM_MODE_CONNECTED | DRM_MODE_DISCONNECTED | DRM_MODE_UNKNOWNCONNECTION

text \<open>
  \<open>drmModeModeInfo\<close> has no padding, so \<open>memcmp\<close> over two of them is equality of all
  fields; \<open>mode_name\<close> holds the bytes of the \<open>name\<close> array.
\<close>

record drmModeModeInfo =
  clock :: "32 word"
  hdisplay :: "16 word"
  hsync_start :: "16 word"
  hsync_end :: "16 word"
  htotal :: "16 word"
  hskew :: "16 word"
  vdisplay :: "16 word"
  vsync_start :: "16 word"
  vsync_end :: "16 word"
  vtotal :: "16 word"
  vscan :: "16 word"
  vrefresh :: "32 word"
  flags :: "32 word"
  mode_type :: "32 word"
  mode_name :: "8 word list"

record drmModeCrtc =
  crtc_id :: "32 word"
  buffer_id :: "32 word"
  crtc_x :: "32 word"
  crtc_y :: "32 word"
  crtc_mode :: drmModeModeInfo

record drmModeEncoder =
  enc_crtc_id :: "32 word"
  possible_crtcs :: "32 word"

record drmModeConnector =
  conn_encoder_id :: "32 word"
  connection :: drmModeConnection
  conn_modes :: "drmModeModeInfo list"
  encoders :: "32 word list"

record drmModeRes =
  crtcs :: "32 word list"
  connectors :: "32 word list"

text \<open>
  What the device and the allocators answer during one call of the backend: the libdrm
  queries (\<open>None\<close> is a NULL result), whether \<open>malloc\<close>/\<open>realloc\<close> succeed, whether
  the GBM and EGL surfaces can be created, and the framebuffer id that \<open>get_fb_for_bo\<close>
  finds for the locked front buffer.
\<close>

record drm_device =
  drmModeGetResources :: "drmModeRes option"
  drmModeGetConnector :: "32 word \<Rightarrow> drmModeConnector option"
  drmModeGetEncoder :: "32 word \<Rightarrow> drmModeEncoder option"
  drmModeGetCrtc :: "32 word \<Rightarrow> drmModeCrtc option"
  alloc_ok :: bool
  gbm_surface_ok :: bool
  egl_surface_ok :: bool
  front_fb :: "32 word"

text \<open>The requests drm.c sends to the device: \<open>drmModeSetCrtc\<close> and \<open>drmModePageFlip\<close>.\<close>

datatype drm_request =
  SetCrtc "32 word" "32 word" "32 word" "32 word" "32 word" "drmModeModeInfo option"
| PageFlip "32 word" "32 word" nat

text \<open>
  Modelled from the spec: the declarations of \<open>struct wlr_drm_display\<close> and of
  \<open>struct wlr_drm_backend\<close> (backend/drm/drm.h and backend.h are not among the sources).
  The fields are those that drm.c reads and writes, which the specification lists: state,
  connector identifier, assigned CRTC, mode list with its length, active mode, snapshot of
  the previous CRTC configuration, size, pending-flip flag and cleanup flag for a display;
  the display table, the CRTC-taken bitmask and the event queue for the backend. The mask
  is 32 bits wide, as \<open>possible_crtcs\<close> of libdrm is. \<open>requests\<close> records what the
  backend has sent to the device through its descriptor. The display name, and the GBM and
  EGL handles, which no property below reads, are left out.
\<close>

record wlr_drm_display =
  state :: wlr_drm_display_state
  connector :: "32 word"
  crtc :: "32 word"
  num_modes :: nat
  modes :: "drmModeModeInfo list option"
  active_mode :: "nat option"
  old_crtc :: "drmModeCrtc option"
  width :: "32 word"
  height :: "32 word"
  pageflip_pending :: bool
  cleanup :: bool

record wlr_drm_backend =
  displays :: "wlr_drm_display list"
  taken_crtcs :: "32 word"
  events :: "(nat \<times> wlr_drm_event_type) list"
  requests :: "drm_request list"

text \<open>A call either returns or stops the process at \<open>assert(0)\<close>.\<close>

datatype 'a outcome = Returned 'a | Aborted

definition upd_display ::
  "nat \<Rightarrow> (wlr_drm_display \<Rightarrow> wlr_drm_display) \<Rightarrow> wlr_drm_backend \<Rightarrow> wlr_drm_backend" where
  "upd_display i f b = b\<lparr>displays := (displays b)[i := f (displays b ! i)]\<rparr>"

text \<open>
  Modelled from the spec: \<open>wlr_drm_add_event\<close> (backend/drm/event.c is not among the
  sources). The backend owns a pending-event queue, and an event is a pair of a display
  reference and a kind; adding an event appends the pair to the queue.
\<close>

definition wlr_drm_add_event ::
  "wlr_drm_backend \<Rightarrow> nat \<Rightarrow> wlr_drm_event_type \<Rightarrow> wlr_drm_backend" where
  "wlr_drm_add_event b i ev = b\<lparr>events := events b @ [(i, ev)]\<rparr>"

section \<open>Connector scan\<close>

text \<open>The slot that the growth loop of \<open>wlr_drm_scan_connectors\<close> writes: all zero, INVALID.\<close>

definition new_display :: wlr_drm_display where
  "new_display = \<lparr>state = DRM_DISP_INVALID, connector = 0, crtc = 0, num_modes = 0,
     modes = None, active_mode = None, old_crtc = None, width = 0, height = 0,
     pageflip_pending = False, cleanup = False\<rparr>"

text \<open>First statement of the loop body: a slot seen for the first time becomes DISCONNECTED.\<close>

definition scan_first_seen :: "32 word \<Rightarrow> nat \<Rightarrow> wlr_drm_backend \<Rightarrow> wlr_drm_backend" where
  "scan_first_seen cid i b =
     (if state (displays b ! i) = DRM_DISP_INVALID
      then upd_display i (\<lambda>d. d\<lparr>state := DRM_DISP_DISCONNECTED, connector := cid\<rparr>) b
      else b)"

text \<open>Second statement of the loop body: the hotplug edges, with their events.\<close>

definition scan_hotplug :: "drmModeConnector \<Rightarrow> nat \<Rightarrow> wlr_drm_backend \<Rightarrow> wlr_drm_backend" where
  "scan_hotplug conn i b =
     (if state (displays b ! i) = DRM_DISP_DISCONNECTED \<and> connection conn = DRM_MODE_CONNECTED
      then wlr_drm_add_event (upd_display i (\<lambda>d. d\<lparr>state := DRM_DISP_NEEDS_MODESET\<rparr>) b)
             i DRM_EV_DISPLAY_ADD
      else if state (displays b ! i) = DRM_DISP_CONNECTED \<and> connection conn \<noteq> DRM_MODE_CONNECTED
      then wlr_drm_add_event (upd_display i (\<lambda>d. d\<lparr>state := DRM_DISP_DISCONNECTED\<rparr>) b)
             i DRM_EV_DISPLAY_REM
      else b)"

definition scan_connector ::
  "drm_device \<Rightarrow> drmModeRes \<Rightarrow> nat \<Rightarrow> wlr_drm_backend \<Rightarrow> wlr_drm_backend" where
  "scan_connector hw res i b =
     (case drmModeGetConnector hw (connectors res ! i) of
        None \<Rightarrow> b
      | Some conn \<Rightarrow> scan_hotplug conn i (scan_first_seen (connectors res ! i) i b))"

definition wlr_drm_scan_connectors :: "drm_device \<Rightarrow> wlr_drm_backend \<Rightarrow> wlr_drm_backend" where
  "wlr_drm_scan_connectors hw b =
     (case drmModeGetResources hw of
        None \<Rightarrow> b
      | Some res \<Rightarrow>
          let n = length (connectors res) in
          if n > length (displays b)
          then (if alloc_ok hw
                then fold (scan_connector hw res) [0..<n]
                       (b\<lparr>displays := displays b @ replicate (n - length (displays b)) new_display\<rparr>)
                else b)
          else fold (scan_connector hw res) [0..<n] b)"

section \<open>Mode selection\<close>

text \<open>
  \<open>sscanf(str, "%ux%u@%u", ...)\<close> of the C library: \<open>%u\<close> skips white space, takes an
  optional sign and at least one decimal digit; the literal characters must match; the
  result is the number of conversions stored, or EOF (-1) when the input ends before the
  first one. A value is stored into an \<open>unsigned\<close>, 32 bits wide: \<open>of_nat\<close> reduces it
  modulo \<open>2 ^ 32\<close> (the C standard leaves a value that does not fit undefined; the
  theorems below only use values that fit).
\<close>

definition isspace :: "char \<Rightarrow> bool" where
  "isspace c = (c \<in> set [CHR '' '', CHR 0x09, CHR 0x0A, CHR 0x0B, CHR 0x0C, CHR 0x0D])"

definition isdigit :: "char \<Rightarrow> bool" where
  "isdigit c = (48 \<le> (of_char c :: nat) \<and> (of_char c :: nat) \<le> 57)"

definition digit_value :: "char \<Rightarrow> nat" where
  "digit_value c = of_char c - 48"

fun scan_digits :: "nat \<Rightarrow> string \<Rightarrow> nat \<times> string" where
  "scan_digits acc [] = (acc, [])"
| "scan_digits acc (c # cs) =
     (if isdigit c then scan_digits (10 * acc + digit_value c) cs else (acc, c # cs))"

definition scan_sign :: "string \<Rightarrow> bool \<times> string" where
  "scan_sign s =
     (case s of
        [] \<Rightarrow> (False, [])
      | c # cs \<Rightarrow> if c = CHR ''-'' then (True, cs) else if c = CHR ''+'' then (False, cs)
                  else (False, s))"

definition scan_unsigned :: "string \<Rightarrow> (32 word \<times> string) option" where
  "scan_unsigned s =
     (let (neg, ds) = scan_sign (dropWhile isspace s) in
      case ds of
        [] \<Rightarrow> None
      | c # _ \<Rightarrow>
          if isdigit c
          then (let (n, rest) = scan_digits 0 ds in
                Some (if neg then - of_nat n else of_nat n, rest))
          else None)"

text \<open>The result is \<open>(ret, width, height, rate)\<close>; a variable not stored keeps its initial 0.\<close>

definition sscanf_mode :: "string \<Rightarrow> int \<times> 32 word \<times> 32 word \<times> 32 word" where
  "sscanf_mode str =
     (case scan_unsigned str of
        None \<Rightarrow> (if dropWhile isspace str = [] then - 1 else 0, 0, 0, 0)
      | Some (w, s1) \<Rightarrow>
          (case s1 of
             [] \<Rightarrow> (1, w, 0, 0)
           | c1 # s2 \<Rightarrow>
               if c1 \<noteq> CHR ''x'' then (1, w, 0, 0)
               else (case scan_unsigned s2 of
                       None \<Rightarrow> (1, w, 0, 0)
                     | Some (h, s3) \<Rightarrow>
                         (case s3 of
                            [] \<Rightarrow> (2, w, h, 0)
                          | c2 # s4 \<Rightarrow>
                              if c2 \<noteq> CHR ''@'' then (2, w, h, 0)
                              else (case scan_unsigned s4 of
                                      None \<Rightarrow> (2, w, h, 0)
                                    | Some (r, s5) \<Rightarrow> (3, w, h, r))))))"

text \<open>The two search loops of \<open>select_mode\<close>: the index of the first element that passes.\<close>

fun first_index :: "('a \<Rightarrow> bool) \<Rightarrow> 'a list \<Rightarrow> nat option" where
  "first_index P [] = None"
| "first_index P (x # xs) = (if P x then Some 0 else map_option Suc (first_index P xs))"

text \<open>
  The result of \<open>select_mode\<close>: \<open>Mode_at i\<close> is the pointer \<open>&modes[i]\<close>, \<open>Null\<close> is
  NULL, \<open>Assert_failed\<close> is the \<open>assert(0)\<close> after the "current" loop (assertions are
  compiled in).
\<close>

datatype mode_result = Mode_at nat | Null | Assert_failed

definition mode_matches :: "32 word \<Rightarrow> 32 word \<Rightarrow> 32 word \<Rightarrow> drmModeModeInfo \<Rightarrow> bool" where
  "mode_matches w h r m =
     (ucast (hdisplay m) = w \<and> ucast (vdisplay m) = h \<and> (r = 0 \<or> vrefresh m = r))"

definition select_mode ::
  "drmModeModeInfo list \<Rightarrow> drmModeCrtc option \<Rightarrow> string \<Rightarrow> mode_result" where
  "select_mode ms old str =
     (if str = ''preferred'' then Mode_at 0
      else if str = ''current'' then
        (case old of
           None \<Rightarrow> Null
         | Some c \<Rightarrow>
             (case first_index (\<lambda>m. m = crtc_mode c) ms of
                Some i \<Rightarrow> Mode_at i
              | None \<Rightarrow> Assert_failed))
      else
        (case sscanf_mode str of
           (ret, w, h, r) \<Rightarrow>
             if ret \<noteq> 2 \<and> ret \<noteq> 3 then Null
             else (case first_index (mode_matches w h r) ms of
                     Some i \<Rightarrow> Mode_at i
                   | None \<Rightarrow> Null)))"

section \<open>Mode setting\<close>

text \<open>
  The CRTC search of \<open>wlr_drm_display_modeset\<close>. \<open>1 << j\<close> is a bit of a 32-bit mask
  (for \<open>j\<close> from 32 on, where C leaves the shift undefined, \<open>push_bit\<close> gives 0 and the
  CRTC is passed over); the inner loop stops at the first \<open>j\<close> that the encoder can drive
  and that is free, the outer loop at the first encoder that finds one.
\<close>

definition crtc_usable :: "32 word \<Rightarrow> 32 word \<Rightarrow> nat \<Rightarrow> bool" where
  "crtc_usable possible taken j =
     (possible AND push_bit j 1 \<noteq> 0 \<and> taken AND push_bit j 1 = 0)"

fun find_crtc :: "drm_device \<Rightarrow> 32 word \<Rightarrow> nat \<Rightarrow> 32 word list \<Rightarrow> nat option" where
  "find_crtc hw taken n [] = None"
| "find_crtc hw taken n (e # es) =
     (case drmModeGetEncoder hw e of
        None \<Rightarrow> find_crtc hw taken n es
      | Some enc \<Rightarrow>
          (case find (crtc_usable (possible_crtcs enc) taken) [0..<n] of
             Some j \<Rightarrow> Some j
           | None \<Rightarrow> find_crtc hw taken n es))"

definition deref_active_mode :: "wlr_drm_display \<Rightarrow> drmModeModeInfo option" where
  "deref_active_mode d =
     (case (modes d, active_mode d) of
        (Some ms, Some k) \<Rightarrow> if k < length ms then Some (ms ! k) else None
      | _ \<Rightarrow> None)"

text \<open>
  \<open>display_init_renderer\<close>: when both surfaces exist, the first frame is set on the CRTC
  and a page flip for it is requested.
\<close>

definition display_init_renderer ::
  "drm_device \<Rightarrow> nat \<Rightarrow> wlr_drm_backend \<Rightarrow> bool \<times> wlr_drm_backend" where
  "display_init_renderer hw i b =
     (let d = displays b ! i in
      if \<not> gbm_surface_ok hw then (False, b)
      else if \<not> egl_surface_ok hw then (False, b)
      else (True, b\<lparr>requests := requests b @
              [SetCrtc (crtc d) (front_fb hw) 0 0 (connector d) (deref_active_mode d),
               PageFlip (crtc d) (front_fb hw) i]\<rparr>))"

text \<open>The \<open>error:\<close> label of \<open>wlr_drm_display_modeset\<close>.\<close>

definition modeset_error :: "nat \<Rightarrow> wlr_drm_backend \<Rightarrow> (bool \<times> wlr_drm_backend) outcome" where
  "modeset_error i b =
     Returned (False,
       wlr_drm_add_event (upd_display i (\<lambda>d. d\<lparr>state := DRM_DISP_DISCONNECTED\<rparr>) b)
         i DRM_EV_DISPLAY_REM)"

text \<open>The snapshot that modeset stores in \<open>disp->old_crtc\<close> before selecting the mode.\<close>

definition lookup_old_crtc ::
  "drm_device \<Rightarrow> drmModeConnector \<Rightarrow> wlr_drm_display \<Rightarrow> drmModeCrtc option" where
  "lookup_old_crtc hw conn d =
     (case drmModeGetEncoder hw (conn_encoder_id conn) of
        None \<Rightarrow> old_crtc d
      | Some curr_enc \<Rightarrow> drmModeGetCrtc hw (enc_crtc_id curr_enc))"

definition wlr_drm_display_modeset ::
  "drm_device \<Rightarrow> nat \<Rightarrow> string \<Rightarrow> wlr_drm_backend \<Rightarrow> (bool \<times> wlr_drm_backend) outcome" where
  "wlr_drm_display_modeset hw i str b =
     (case drmModeGetConnector hw (connector (displays b ! i)) of
        None \<Rightarrow> modeset_error i b
      | Some conn \<Rightarrow>
          if connection conn \<noteq> DRM_MODE_CONNECTED \<or> conn_modes conn = [] then modeset_error i b
          else if \<not> alloc_ok hw
          then modeset_error i
                 (upd_display i (\<lambda>d. d\<lparr>num_modes := length (conn_modes conn), modes := None\<rparr>) b)
          else
            let b1 = upd_display i
                       (\<lambda>d. d\<lparr>num_modes := length (conn_modes conn),
                               modes := Some (conn_modes conn),
                               old_crtc := lookup_old_crtc hw conn d\<rparr>) b
            in (case select_mode (conn_modes conn) (old_crtc (displays b1 ! i)) str of
                  Assert_failed \<Rightarrow> Aborted
                | Null \<Rightarrow> modeset_error i (upd_display i (\<lambda>d. d\<lparr>active_mode := None\<rparr>) b1)
                | Mode_at k \<Rightarrow>
                    let b2 = upd_display i (\<lambda>d. d\<lparr>active_mode := Some k\<rparr>) b1 in
                    (case drmModeGetResources hw of
                       None \<Rightarrow> modeset_error i b2
                     | Some res \<Rightarrow>
                         (case find_crtc hw (taken_crtcs b2) (length (crtcs res)) (encoders conn) of
                            None \<Rightarrow> modeset_error i b2
                          | Some j \<Rightarrow>
                              let b3 = upd_display i
                                         (\<lambda>d. d\<lparr>crtc := crtcs res ! j,
                                                 state := DRM_DISP_CONNECTED,
                                                 width := ucast (hdisplay (conn_modes conn ! k)),
                                                 height := ucast (vdisplay (conn_modes conn ! k))\<rparr>)
                                         (b2\<lparr>taken_crtcs := taken_crtcs b2 OR push_bit j 1\<rparr>)
                              in Returned (True, snd (display_init_renderer hw i b3))))))"

section \<open>Page flips and teardown\<close>

definition page_flip_handler :: "nat \<Rightarrow> wlr_drm_backend \<Rightarrow> wlr_drm_backend" where
  "page_flip_handler i b =
     (let b1 = upd_display i (\<lambda>d. d\<lparr>pageflip_pending := True\<rparr>) b in
      if \<not> cleanup (displays b1 ! i) then wlr_drm_add_event b1 i DRM_EV_RENDER else b1)"

text \<open>
  \<open>drmHandleEvent\<close> of libdrm reads the completion events that are ready and calls the
  handler for each, with the display given to \<open>drmModePageFlip\<close>.
\<close>

definition drmHandleEvent :: "nat list \<Rightarrow> wlr_drm_backend \<Rightarrow> wlr_drm_backend" where
  "drmHandleEvent ready b = fold page_flip_handler ready b"

definition wlr_drm_event :: "nat list \<Rightarrow> wlr_drm_backend \<Rightarrow> wlr_drm_backend" where
  "wlr_drm_event ready b = drmHandleEvent ready b"

definition wlr_drm_display_end :: "32 word \<Rightarrow> nat \<Rightarrow> wlr_drm_backend \<Rightarrow> wlr_drm_backend" where
  "wlr_drm_display_end fb_id i b =
     upd_display i (\<lambda>d. d\<lparr>pageflip_pending := False\<rparr>)
       (b\<lparr>requests := requests b @ [PageFlip (crtc (displays b ! i)) fb_id i]\<rparr>)"

text \<open>
  The wait loop of \<open>wlr_drm_display_free\<close>. \<open>pumps k\<close> is what the \<open>k\<close>-th call of
  \<open>drmHandleEvent\<close> delivers; a loop that never ends is the value \<open>None\<close>.
\<close>

partial_function (option) wait_pageflip ::
  "(nat \<Rightarrow> nat list) \<Rightarrow> nat \<Rightarrow> nat \<Rightarrow> wlr_drm_backend \<Rightarrow> wlr_drm_backend option" where
  "wait_pageflip pumps k i b =
     (if pageflip_pending (displays b ! i)
      then wait_pageflip pumps (Suc k) i (drmHandleEvent (pumps k) b)
      else Some b)"

declare wait_pageflip.simps [code]

definition restore_crtc :: "drmModeCrtc \<Rightarrow> nat \<Rightarrow> wlr_drm_backend \<Rightarrow> wlr_drm_backend" where
  "restore_crtc c i b =
     b\<lparr>requests := requests b @
        [SetCrtc (crtc_id c) (buffer_id c) (crtc_x c) (crtc_y c) (connector (displays b ! i))
           (Some (crtc_mode c))]\<rparr>"

text \<open>
  \<open>wlr_drm_display_free\<close>. Releasing the snapshot, destroying the two surfaces and
  releasing the mode list free memory and handles; the fields of the display keep their
  values (the code does not reset them), and the state stays CONNECTED.
\<close>

definition wlr_drm_display_free ::
  "(nat \<Rightarrow> nat list) \<Rightarrow> nat option \<Rightarrow> wlr_drm_backend \<Rightarrow> wlr_drm_backend option" where
  "wlr_drm_display_free pumps disp b =
     (case disp of
        None \<Rightarrow> Some b
      | Some i \<Rightarrow>
          if state (displays b ! i) \<noteq> DRM_DISP_CONNECTED then Some b
          else (case old_crtc (displays b ! i) of
                  None \<Rightarrow> Some b
                | Some c \<Rightarrow>
                    (case wait_pageflip pumps 0 i
                            (upd_display i (\<lambda>d. d\<lparr>cleanup := True\<rparr>) b) of
                       None \<Rightarrow> None
                     | Some b1 \<Rightarrow> Some (restore_crtc c i b1))))"

section \<open>Sequences of calls\<close>

text \<open>
  The entry points of drm.c that a compositor calls on a backend, each with what the device
  answers during the call. A display argument must point into the table; a call that stops
  at the assertion or never returns has no next state.
\<close>

datatype backend_op =
  Scan drm_device
| Modeset drm_device nat string
| Free "nat \<Rightarrow> nat list" "nat option"
| End "32 word" nat
| Event "nat list"

fun exec :: "backend_op \<Rightarrow> wlr_drm_backend \<Rightarrow> wlr_drm_backend option" where
  "exec (Scan hw) b = Some (wlr_drm_scan_connectors hw b)"
| "exec (Modeset hw i str) b =
     (if i < length (displays b)
      then (case wlr_drm_display_modeset hw i str b of
              Returned r \<Rightarrow> Some (snd r)
            | Aborted \<Rightarrow> None)
      else None)"
| "exec (Free pumps disp) b =
     (case disp of
        None \<Rightarrow> wlr_drm_display_free pumps None b
      | Some i \<Rightarrow> if i < length (displays b) then wlr_drm_display_free pumps (Some i) b else None)"
| "exec (End fb_id i) b =
     (if i < length (displays b) then Some (wlr_drm_display_end fb_id i b) else None)"
| "exec (Event ready) b =
     (if list_all (\<lambda>u. u < length (displays b)) ready then Some (wlr_drm_event ready b)
      else None)"

fun run :: "backend_op list \<Rightarrow> wlr_drm_backend \<Rightarrow> wlr_drm_backend option" where
  "run [] b = Some b"
| "run (x # xs) b = (case exec x b of None \<Rightarrow> None | Some b' \<Rightarrow> run xs b')"

text \<open>
  Modelled from the spec: the backend as it is created (backend/drm/backend.c is not among
  the sources): no display slot yet, no CRTC taken, no event pending.
\<close>

definition backend_init :: wlr_drm_backend where
  "backend_init = \<lparr>displays = [], taken_crtcs = 0, events = [], requests = []\<rparr>"

section \<open>Requests and expectations, as the specification words them\<close>

text \<open>
  The request strings \<open><width>x<height>\<close> and \<open><width>x<height>@<rate>\<close>: the numbers
  in decimal notation.
\<close>

fun dec :: "nat \<Rightarrow> string" where
  "dec n = (if n < 10 then [char_of (48 + n)] else dec (n div 10) @ [char_of (48 + n mod 10)])"

declare dec.simps [simp del]

definition numeric_request :: "nat \<Rightarrow> nat \<Rightarrow> nat option \<Rightarrow> string" where
  "numeric_request w h rate =
     dec w @ ''x'' @ dec h @ (case rate of None \<Rightarrow> [] | Some r \<Rightarrow> ''@'' @ dec r)"

text \<open>A mode has the requested width and height and, when a rate is asked for, that rate.\<close>

definition wanted :: "nat \<Rightarrow> nat \<Rightarrow> nat option \<Rightarrow> drmModeModeInfo \<Rightarrow> bool" where
  "wanted w h rate m =
     (unat (hdisplay m) = w \<and> unat (vdisplay m) = h \<and>
      (case rate of None \<Rightarrow> True | Some r \<Rightarrow> unat (vrefresh m) = r))"

text \<open>\<open>i\<close> is the first position of the list, in list order, whose element passes.\<close>

definition is_first :: "('a \<Rightarrow> bool) \<Rightarrow> 'a list \<Rightarrow> nat \<Rightarrow> bool" where
  "is_first P xs i = (i < length xs \<and> P (xs ! i) \<and> (\<forall>j<i. \<not> P (xs ! j)))"

text \<open>
  The state graph of a display, with the event each edge emits: INVALID to DISCONNECTED,
  DISCONNECTED to NEEDS_MODESET (ADD), NEEDS_MODESET to CONNECTED, NEEDS_MODESET to
  DISCONNECTED (REM), CONNECTED to DISCONNECTED (REM).
\<close>

fun edge ::
  "wlr_drm_display_state \<Rightarrow> wlr_drm_event_type list \<Rightarrow> wlr_drm_display_state \<Rightarrow> bool" where
  "edge DRM_DISP_INVALID es DRM_DISP_DISCONNECTED = (es = [])"
| "edge DRM_DISP_DISCONNECTED es DRM_DISP_NEEDS_MODESET = (es = [DRM_EV_DISPLAY_ADD])"
| "edge DRM_DISP_NEEDS_MODESET es DRM_DISP_CONNECTED = (es = [])"
| "edge DRM_DISP_NEEDS_MODESET es DRM_DISP_DISCONNECTED = (es = [DRM_EV_DISPLAY_REM])"
| "edge DRM_DISP_CONNECTED es DRM_DISP_DISCONNECTED = (es = [DRM_EV_DISPLAY_REM])"
| "edge _ _ _ = False"

text \<open>A walk of the graph, with the events of its edges in order.\<close>

inductive walk ::
  "wlr_drm_display_state \<Rightarrow> wlr_drm_event_type list \<Rightarrow> wlr_drm_display_state \<Rightarrow> bool" where
  stay: "walk s [] s"
| move: "walk s es t \<Longrightarrow> edge t es' u \<Longrightarrow> walk s (es @ es') u"

text \<open>The state of slot \<open>k\<close>; a slot the table does not hold yet has never been seen.\<close>

definition slot_state :: "wlr_drm_backend \<Rightarrow> nat \<Rightarrow> wlr_drm_display_state" where
  "slot_state b k = (if k < length (displays b) then state (displays b ! k) else DRM_DISP_INVALID)"

text \<open>The events for display \<open>k\<close> that were queued between \<open>b\<close> and \<open>b'\<close>.\<close>

definition new_events :: "wlr_drm_backend \<Rightarrow> wlr_drm_backend \<Rightarrow> nat \<Rightarrow> wlr_drm_event_type list" where
  "new_events b b' k =
     map snd (filter (\<lambda>e. fst e = k) (drop (length (events b)) (events b')))"

text \<open>
  Calls that follow the event protocol: scans, and a modeset only for a display that is in
  NEEDS_MODESET (the display an ADD event announced).
\<close>

fun follows_protocol :: "backend_op \<Rightarrow> wlr_drm_backend \<Rightarrow> bool" where
  "follows_protocol (Scan hw) b = True"
| "follows_protocol (Modeset hw i str) b =
     (i < length (displays b) \<and> state (displays b ! i) = DRM_DISP_NEEDS_MODESET)"
| "follows_protocol _ b = False"

fun run_protocol :: "backend_op list \<Rightarrow> wlr_drm_backend \<Rightarrow> wlr_drm_backend option" where
  "run_protocol [] b = Some b"
| "run_protocol (x # xs) b =
     (if follows_protocol x b
      then (case exec x b of None \<Rightarrow> None | Some b' \<Rightarrow> run_protocol xs b')
      else None)"

text \<open>The causes for which a modeset gives up, in the order the code meets them.\<close>

datatype modeset_failure =
  Connector_query_failed | Not_connected | No_modes | Mode_list_alloc_failed
| No_matching_mode | Resources_query_failed | No_free_crtc

definition modeset_failure ::
  "drm_device \<Rightarrow> wlr_drm_display \<Rightarrow> 32 word \<Rightarrow> string \<Rightarrow> modeset_failure option" where
  "modeset_failure hw d taken str =
     (case drmModeGetConnector hw (connector d) of
        None \<Rightarrow> Some Connector_query_failed
      | Some conn \<Rightarrow>
          if connection conn \<noteq> DRM_MODE_CONNECTED then Some Not_connected
          else if conn_modes conn = [] then Some No_modes
          else if \<not> alloc_ok hw then Some Mode_list_alloc_failed
          else (case select_mode (conn_modes conn) (lookup_old_crtc hw conn d) str of
                  Null \<Rightarrow> Some No_matching_mode
                | Assert_failed \<Rightarrow> None
                | Mode_at k \<Rightarrow>
                    (case drmModeGetResources hw of
                       None \<Rightarrow> Some Resources_query_failed
                     | Some res \<Rightarrow>
                         (case find_crtc hw taken (length (crtcs res)) (encoders conn) of
                            None \<Rightarrow> Some No_free_crtc
                          | Some j \<Rightarrow> None))))"

text \<open>The number of set bits of the CRTC mask, and the number of CONNECTED displays.\<close>

definition popcount :: "32 word \<Rightarrow> nat" where
  "popcount w = length (filter (bit w) [0..<32])"

definition connected_count :: "wlr_drm_backend \<Rightarrow> nat" where
  "connected_count b = length (filter (\<lambda>d. state d = DRM_DISP_CONNECTED) (displays b))"

text \<open>Every resource list that a modeset of the sequence sees names the same CRTCs.\<close>

fun sees_crtcs :: "32 word list \<Rightarrow> backend_op \<Rightarrow> bool" where
  "sees_crtcs cs (Modeset hw i str) =
     (case drmModeGetResources hw of None \<Rightarrow> True | Some res \<Rightarrow> crtcs res = cs)"
| "sees_crtcs cs _ = True"

text \<open>No two CONNECTED displays hold the same CRTC.\<close>

definition crtcs_exclusive :: "wlr_drm_backend \<Rightarrow> bool" where
  "crtcs_exclusive b =
     (\<forall>i<length (displays b). \<forall>k<length (displays b).
        i \<noteq> k \<longrightarrow> state (displays b ! i) = DRM_DISP_CONNECTED \<longrightarrow>
        state (displays b ! k) = DRM_DISP_CONNECTED \<longrightarrow>
        crtc (displays b ! i) \<noteq> crtc (displays b ! k))"

text \<open>The values a request can carry: they fit an \<open>unsigned\<close>; a rate, when given, is not 0.\<close>

definition fits_unsigned :: "nat \<Rightarrow> bool" where
  "fits_unsigned n = (n < 2 ^ 32)"

definition nonzero_rate :: "nat option \<Rightarrow> bool" where
  "nonzero_rate rate = (case rate of None \<Rightarrow> True | Some r \<Rightarrow> 0 < r \<and> fits_unsigned r)"

text \<open>The rest of the input stops a run of digits: it is empty or starts with a non-digit.\<close>

definition stops_digits :: "string \<Rightarrow> bool" where
  "stops_digits s = (case s of [] \<Rightarrow> True | c # _ \<Rightarrow> \<not> isdigit c)"

section \<open>Relations between two states of the backend\<close>

text \<open>
  What one call may have done, as seen by comparing the backend before and after it.
  After a modeset that gave up, the slot is DISCONNECTED, one REM is queued and the mask is
  as before; after one that succeeded, the slot is CONNECTED on a CRTC whose bit was clear
  and is now set, and nothing is queued.
\<close>

definition modeset_failed :: "nat \<Rightarrow> wlr_drm_backend \<Rightarrow> wlr_drm_backend \<Rightarrow> bool" where
  "modeset_failed i b b' =
     (taken_crtcs b' = taken_crtcs b \<and> events b' = events b @ [(i, DRM_EV_DISPLAY_REM)] \<and>
      (\<exists>d'. displays b' = (displays b)[i := d'] \<and> state d' = DRM_DISP_DISCONNECTED \<and>
            crtc d' = crtc (displays b ! i)))"

definition modeset_done :: "drm_device \<Rightarrow> nat \<Rightarrow> wlr_drm_backend \<Rightarrow> wlr_drm_backend \<Rightarrow> bool" where
  "modeset_done hw i b b' =
     (events b' = events b \<and>
      (\<exists>res j d'. drmModeGetResources hw = Some res \<and> j < length (crtcs res) \<and> j < 32 \<and>
         \<not> bit (taken_crtcs b) j \<and> taken_crtcs b' = taken_crtcs b OR push_bit j 1 \<and>
         displays b' = (displays b)[i := d'] \<and> state d' = DRM_DISP_CONNECTED \<and>
         crtc d' = crtcs res ! j))"

text \<open>Only slot \<open>i\<close> changed, along a walk whose events were queued for \<open>i\<close>.\<close>

definition slot_walk :: "nat \<Rightarrow> wlr_drm_backend \<Rightarrow> wlr_drm_backend \<Rightarrow> bool" where
  "slot_walk i b b' =
     (\<exists>d' es. displays b' = (displays b)[i := d'] \<and> events b' = events b @ map (Pair i) es \<and>
        walk (state (displays b ! i)) es (state d'))"

text \<open>The queue only grew, and every slot moved along a walk that emitted its new events.\<close>

definition evolves :: "wlr_drm_backend \<Rightarrow> wlr_drm_backend \<Rightarrow> bool" where
  "evolves b b' =
     ((\<exists>es. events b' = events b @ es) \<and>
      (\<forall>k. walk (slot_state b k) (new_events b b' k) (slot_state b' k)))"

text \<open>The mask is as before, and a display that is CONNECTED was so before, on the same CRTC.\<close>

definition keeps_crtcs :: "wlr_drm_backend \<Rightarrow> wlr_drm_backend \<Rightarrow> bool" where
  "keeps_crtcs b b' =
     (taken_crtcs b' = taken_crtcs b \<and> length (displays b) \<le> length (displays b') \<and>
      (\<forall>k<length (displays b').
         state (displays b' ! k) = DRM_DISP_CONNECTED \<longrightarrow>
         k < length (displays b) \<and> state (displays b ! k) = DRM_DISP_CONNECTED \<and>
         crtc (displays b' ! k) = crtc (displays b ! k)))"

text \<open>The CRTC of every CONNECTED display is one of \<open>cs\<close>, at a position whose bit is set.\<close>

definition crtcs_backed :: "32 word list \<Rightarrow> wlr_drm_backend \<Rightarrow> bool" where
  "crtcs_backed cs b =
     (\<forall>i<length (displays b). state (displays b ! i) = DRM_DISP_CONNECTED \<longrightarrow>
        (\<exists>j<length cs. bit (taken_crtcs b) j \<and> crtc (displays b ! i) = cs ! j))"

section \<open>Example data\<close>

definition mk_mode :: "nat \<Rightarrow> nat \<Rightarrow> nat \<Rightarrow> drmModeModeInfo" where
  "mk_mode w h r = \<lparr>clock = 0, hdisplay = of_nat w, hsync_start = 0, hsync_end = 0, htotal = 0,
     hskew = 0, vdisplay = of_nat h, vsync_start = 0, vsync_end = 0, vtotal = 0, vscan = 0,
     vrefresh = of_nat r, flags = 0, mode_type = 0, mode_name = []\<rparr>"

definition example_modes :: "drmModeModeInfo list" where
  "example_modes = [mk_mode 1280 720 60, mk_mode 1920 1080 50, mk_mode 1920 1080 60]"

definition example_snapshot :: "nat \<Rightarrow> nat \<Rightarrow> nat \<Rightarrow> drmModeCrtc" where
  "example_snapshot w h r =
     \<lparr>crtc_id = 40, buffer_id = 7, crtc_x = 0, crtc_y = 0, crtc_mode = mk_mode w h r\<rparr>"

text \<open>
  A device with one connector (id 5) and one CRTC (id 40) behind encoder 3. The connector
  reports three modes; \<open>plugged\<close> says whether a monitor is attached, and \<open>enc0\<close> is the
  encoder the connector names as its current one (0: none).
\<close>

definition example_connector :: "bool \<Rightarrow> 32 word \<Rightarrow> drmModeConnector" where
  "example_connector plugged enc0 =
     \<lparr>conn_encoder_id = enc0,
      connection = (if plugged then DRM_MODE_CONNECTED else DRM_MODE_DISCONNECTED),
      conn_modes = example_modes, encoders = [3]\<rparr>"

definition example_device :: "bool \<Rightarrow> 32 word \<Rightarrow> drm_device" where
  "example_device plugged enc0 =
     \<lparr>drmModeGetResources = Some \<lparr>crtcs = [40], connectors = [5]\<rparr>,
      drmModeGetConnector = (\<lambda>c. if c = 5 then Some (example_connector plugged enc0) else None),
      drmModeGetEncoder = (\<lambda>e. if e = 3 then Some \<lparr>enc_crtc_id = 40, possible_crtcs = 1\<rparr> else None),
      drmModeGetCrtc = (\<lambda>c. if c = 40 then Some (example_snapshot 1280 720 60) else None),
      alloc_ok = True, gbm_surface_ok = True, egl_surface_ok = True, front_fb = 9\<rparr>"

text \<open>A table with one CONNECTED display, with the two flags and the snapshot as given.\<close>

definition example_display :: "bool \<Rightarrow> bool \<Rightarrow> drmModeCrtc option \<Rightarrow> wlr_drm_display" where
  "example_display pending cleaning snapshot =
     \<lparr>state = DRM_DISP_CONNECTED, connector = 5, crtc = 40, num_modes = 3,
      modes = Some example_modes, active_mode = Some 0, old_crtc = snapshot,
      width = 1280, height = 720, pageflip_pending = pending, cleanup = cleaning\<rparr>"

definition example_backend :: "bool \<Rightarrow> bool \<Rightarrow> drmModeCrtc option \<Rightarrow> wlr_drm_backend" where
  "example_backend pending cleaning snapshot =
     \<lparr>displays = [example_display pending cleaning snapshot], taken_crtcs = 1,
      events = [], requests = []\<rparr>"

definition no_completions :: "nat \<Rightarrow> nat list" where
  "no_completions k = []"

text \<open>What a sequence of calls from the fresh backend leaves in slot \<open>k\<close> and in the mask.\<close>

definition state_after :: "backend_op list \<Rightarrow> nat \<Rightarrow> wlr_drm_display_state option" where
  "state_after ops k = map_option (\<lambda>b. slot_state b k) (run ops backend_init)"

definition crtc_balance :: "backend_op list \<Rightarrow> (nat \<times> nat) option" where
  "crtc_balance ops =
     map_option (\<lambda>b. (popcount (taken_crtcs b), connected_count b)) (run ops backend_init)"

text \<open>The fresh backend after one scan of the device with a monitor attached.\<close>

definition example_plugged_backend :: wlr_drm_backend where
  "example_plugged_backend = wlr_drm_scan_connectors (example_device True 0) backend_init"

section \<open>Properties of mode selection\<close>

subsection \<open>The search loops\<close>

lemma first_index_Some_iff: "first_index P xs = Some i \<longleftrightarrow> is_first P xs i"
proof (induction xs arbitrary: i)
  case Nil
  show ?case by (simp add: is_first_def)
next
  case (Cons x xs)
  show ?case
  proof (cases "P x")
    case True
    then show ?thesis by (cases i) (auto simp: is_first_def)
  next
    case False
    show ?thesis
    proof (cases i)
      case 0
      with False show ?thesis by (simp add: is_first_def)
    next
      case (Suc k)
      have "is_first P (x # xs) (Suc k) \<longleftrightarrow> is_first P xs k"
        using False by (auto simp: is_first_def less_Suc_eq_0_disj)
      with False Suc Cons.IH [of k] show ?thesis by auto
    qed
  qed
qed

lemma first_index_None_iff: "first_index P xs = None \<longleftrightarrow> (\<forall>x\<in>set xs. \<not> P x)"
  by (induction xs) auto

subsection \<open>Reading a decimal request\<close>

lemma isdigit_char_of: "d < 10 \<Longrightarrow> isdigit (char_of (48 + (d::nat)))"
  by (simp add: isdigit_def)

lemma digit_value_char_of: "d < 10 \<Longrightarrow> digit_value (char_of (48 + (d::nat))) = d"
  by (simp add: digit_value_def)

lemma scan_digits_dec:
  "scan_digits acc (dec n @ rest) = scan_digits (acc * 10 ^ length (dec n) + n) rest"
proof (induction n arbitrary: acc rest rule: dec.induct)
  case (1 n)
  show ?case
  proof (cases "n < 10")
    case True
    then show ?thesis
      by (simp add: dec.simps [of n] isdigit_char_of digit_value_char_of mult.commute)
  next
    case False
    have "scan_digits acc (dec n @ rest)
        = scan_digits acc (dec (n div 10) @ (char_of (48 + n mod 10) # rest))"
      using False by (simp add: dec.simps [of n])
    also have "\<dots> = scan_digits (acc * 10 ^ length (dec (n div 10)) + n div 10)
                       (char_of (48 + n mod 10) # rest)"
      by (rule "1.IH" [OF False])
    also have "\<dots> = scan_digits (10 * (acc * 10 ^ length (dec (n div 10)) + n div 10) + n mod 10) rest"
      by (simp add: isdigit_char_of digit_value_char_of)
    also have "10 * (acc * 10 ^ length (dec (n div 10)) + n div 10) + n mod 10
             = acc * 10 ^ length (dec n) + n"
      using False by (simp add: dec.simps [of n] algebra_simps)
    finally show ?thesis .
  qed
qed

lemma dec_starts_with_digit: "\<exists>c cs. dec n = c # cs \<and> isdigit c"
proof (induction n rule: dec.induct)
  case (1 n)
  show ?case
  proof (cases "n < 10")
    case True
    then show ?thesis by (simp add: dec.simps [of n] isdigit_char_of)
  next
    case False
    from "1.IH" [OF False] obtain c cs where "dec (n div 10) = c # cs" "isdigit c" by blast
    with False show ?thesis by (simp add: dec.simps [of n])
  qed
qed

lemma isdigit_not_space: "isdigit c \<Longrightarrow> \<not> isspace c"
  by (auto simp: isdigit_def isspace_def)

lemma isdigit_not_sign: "isdigit c \<Longrightarrow> c \<noteq> CHR ''-'' \<and> c \<noteq> CHR ''+''"
  by (auto simp: isdigit_def)

lemma scan_digits_stop: "stops_digits rest \<Longrightarrow> scan_digits n rest = (n, rest)"
  by (cases rest) (simp_all add: stops_digits_def)

lemma scan_unsigned_dec:
  assumes "stops_digits rest"
  shows "scan_unsigned (dec n @ rest) = Some (of_nat n, rest)"
proof -
  obtain c cs where d: "dec n = c # cs" and c: "isdigit c"
    using dec_starts_with_digit by blast
  have dw: "dropWhile isspace (c # cs @ rest) = c # cs @ rest"
    using c by (simp add: isdigit_not_space)
  have sg: "scan_sign (c # cs @ rest) = (False, c # cs @ rest)"
    using isdigit_not_sign [OF c] by (simp add: scan_sign_def)
  have sd: "scan_digits 0 (c # cs @ rest) = (n, rest)"
    using assms scan_digits_dec [of 0 n rest] by (simp add: d scan_digits_stop del: scan_digits.simps)
  show ?thesis
    by (simp add: scan_unsigned_def d dw sg sd c del: scan_digits.simps dropWhile.simps)
qed

lemma sscanf_mode_numeric:
  "sscanf_mode (numeric_request w h rate) =
     (case rate of None \<Rightarrow> (2, of_nat w, of_nat h, 0) | Some r \<Rightarrow> (3, of_nat w, of_nat h, of_nat r))"
proof -
  have x: "stops_digits (CHR ''x'' # s)" for s
    by (simp add: stops_digits_def isdigit_def)
  have a: "stops_digits (CHR ''@'' # s)" for s
    by (simp add: stops_digits_def isdigit_def)
  have e: "stops_digits []"
    by (simp add: stops_digits_def)
  show ?thesis
  proof (cases rate)
    case None
    have "numeric_request w h rate = dec w @ (CHR ''x'' # (dec h @ []))"
      using None by (simp add: numeric_request_def)
    then show ?thesis
      using None by (simp add: sscanf_mode_def scan_unsigned_dec [OF x] scan_unsigned_dec [OF e] del: append_Nil2)
  next
    case (Some r)
    have "numeric_request w h rate = dec w @ (CHR ''x'' # (dec h @ (CHR ''@'' # (dec r @ []))))"
      using Some by (simp add: numeric_request_def)
    then show ?thesis
      using Some by (simp add: sscanf_mode_def scan_unsigned_dec [OF x] scan_unsigned_dec [OF a] scan_unsigned_dec [OF e] del: append_Nil2)
  qed
qed

lemma numeric_request_not_keyword:
  "numeric_request w h rate \<noteq> ''preferred'' \<and> numeric_request w h rate \<noteq> ''current''"
proof -
  obtain c cs where d: "dec w = c # cs" and c: "isdigit c"
    using dec_starts_with_digit by blast
  have "c \<noteq> CHR ''p''" "c \<noteq> CHR ''c''"
    using c by (auto simp: isdigit_def)
  then show ?thesis by (auto simp: numeric_request_def d)
qed

lemma select_mode_numeric_request:
  "select_mode ms old (numeric_request w h rate) =
     (case first_index (mode_matches (of_nat w) (of_nat h)
                         (of_nat (case rate of None \<Rightarrow> 0 | Some r \<Rightarrow> r))) ms of
        Some i \<Rightarrow> Mode_at i | None \<Rightarrow> Null)"
  using numeric_request_not_keyword [of w h rate]
  by (cases rate) (simp_all add: select_mode_def sscanf_mode_numeric)

lemma ucast_eq_of_nat_iff:
  assumes "n < 2 ^ 32"
  shows "(ucast (x :: 16 word) = (of_nat n :: 32 word)) \<longleftrightarrow> unat x = n"
proof -
  have "unat x < 2 ^ LENGTH(16)"
    by (rule unsigned_less)
  then have ux: "unat x < 2 ^ 32"
    by simp
  have "ucast x = (of_nat (unat x) :: 32 word)"
    by simp
  then have "(ucast x = (of_nat n :: 32 word)) \<longleftrightarrow> take_bit 32 (unat x) = take_bit 32 n"
    by (simp only: word_of_nat_eq_iff) simp
  also have "\<dots> \<longleftrightarrow> unat x = n"
    using ux assms by (simp add: take_bit_nat_eq_self)
  finally show ?thesis .
qed

lemma word32_eq_of_nat_iff:
  assumes "n < 2 ^ 32"
  shows "((x :: 32 word) = of_nat n) \<longleftrightarrow> unat x = n"
proof
  assume "x = of_nat n"
  then show "unat x = n" using assms by (simp add: unat_of_nat)
next
  assume "unat x = n"
  then show "x = of_nat n" by auto
qed

lemma of_nat_32_eq_0_iff: "n < 2 ^ 32 \<Longrightarrow> ((of_nat n :: 32 word) = 0) \<longleftrightarrow> n = 0"
  using word32_eq_of_nat_iff [of n 0] by auto

lemma mode_matches_wanted:
  assumes "w < 2 ^ 32" "h < 2 ^ 32"
  shows "mode_matches (of_nat w) (of_nat h) 0 m \<longleftrightarrow> wanted w h None m"
  using assms by (simp add: mode_matches_def wanted_def ucast_eq_of_nat_iff)

lemma mode_matches_wanted_rate:
  assumes "w < 2 ^ 32" "h < 2 ^ 32" "r < 2 ^ 32" "0 < r"
  shows "mode_matches (of_nat w) (of_nat h) (of_nat r) m \<longleftrightarrow> wanted w h (Some r) m"
  using assms
  by (simp add: mode_matches_def wanted_def ucast_eq_of_nat_iff of_nat_32_eq_0_iff
        word32_eq_of_nat_iff [of r "vrefresh m"])

subsection \<open>The three request forms\<close>

lemma select_mode_first_index_cases:
  assumes "r = (case first_index P ms of Some i \<Rightarrow> Mode_at i | None \<Rightarrow> Null)"
  shows "(r = Mode_at i \<longleftrightarrow> is_first P ms i) \<and> (r = Null \<longleftrightarrow> (\<forall>m\<in>set ms. \<not> P m))"
proof (cases "first_index P ms")
  case None
  then have "\<forall>m\<in>set ms. \<not> P m" by (simp add: first_index_None_iff)
  moreover from this have "\<not> is_first P ms i" by (auto simp: is_first_def)
  ultimately show ?thesis using None assms by simp
next
  case (Some k)
  then have k: "is_first P ms k" by (simp add: first_index_Some_iff)
  then have "\<not> (\<forall>m\<in>set ms. \<not> P m)" by (auto simp: is_first_def)
  moreover have "is_first P ms i \<longleftrightarrow> k = i"
    using Some first_index_Some_iff [of P ms i] by auto
  ultimately show ?thesis using Some assms by simp
qed

text \<open>
  Claim C7, as the code has it: for every mode list and every request \<open><width>x<height>\<close>
  or \<open><width>x<height>@<rate>\<close> whose numbers fit an \<open>unsigned\<close> and whose rate, when
  given, is not 0, the mode selector returns the first mode in list order whose width and
  height equal the requested values and, when a rate was given, whose refresh rate equals
  it; without a rate any refresh rate matches; it returns NULL exactly when no mode matches.
\<close>

theorem select_mode_numeric:
  assumes "fits_unsigned w" and "fits_unsigned h" and "nonzero_rate rate"
  shows "(select_mode ms old (numeric_request w h rate) = Mode_at i
            \<longleftrightarrow> is_first (wanted w h rate) ms i) \<and>
         (select_mode ms old (numeric_request w h rate) = Null
            \<longleftrightarrow> (\<forall>m\<in>set ms. \<not> wanted w h rate m))"
proof -
  have P: "mode_matches (of_nat w) (of_nat h) (of_nat (case rate of None \<Rightarrow> 0 | Some r \<Rightarrow> r))
            = wanted w h rate"
  proof (cases rate)
    case None
    then show ?thesis
      using assms by (auto simp: fun_eq_iff mode_matches_wanted fits_unsigned_def)
  next
    case (Some r)
    then show ?thesis
      using assms
      by (auto simp: fun_eq_iff mode_matches_wanted_rate fits_unsigned_def nonzero_rate_def)
  qed
  show ?thesis
    by (rule select_mode_first_index_cases) (simp add: select_mode_numeric_request P)
qed

theorem select_mode_numeric_witness:
  "fits_unsigned 1920 \<and> fits_unsigned 1080 \<and> nonzero_rate (Some 60) \<and>
   numeric_request 1920 1080 (Some 60) = ''1920x1080@60'' \<and>
   is_first (wanted 1920 1080 (Some 60)) example_modes 2 \<and>
   select_mode example_modes None ''1920x1080@60'' = Mode_at 2"
proof -
  have a: "fits_unsigned 1920" "fits_unsigned 1080" "nonzero_rate (Some 60)"
    by (simp_all add: fits_unsigned_def nonzero_rate_def)
  have s: "numeric_request 1920 1080 (Some 60) = ''1920x1080@60''"
    by code_simp
  have f: "is_first (wanted 1920 1080 (Some 60)) example_modes 2"
    by (auto simp: is_first_def wanted_def example_modes_def mk_mode_def less_2_cases_iff)
  from select_mode_numeric [OF a, of example_modes None 2] f
  have "select_mode example_modes None (numeric_request 1920 1080 (Some 60)) = Mode_at 2"
    by simp
  with a s f show ?thesis by simp
qed

text \<open>
  With the rate 0 written out the selector does not ask for a refresh rate of 0: for the
  single mode 1920x1080 at 60 Hz and the request \<open>1920x1080@0\<close> it returns that mode,
  whose refresh rate is not the requested one.
\<close>

theorem select_mode_zero_rate_counterexample:
  "select_mode [mk_mode 1920 1080 60] None (numeric_request 1920 1080 (Some 0)) = Mode_at 0 \<and>
   \<not> wanted 1920 1080 (Some 0) (mk_mode 1920 1080 60)"
  by (simp add: select_mode_numeric_request mode_matches_def wanted_def mk_mode_def)

text \<open>
  Claim C8: for every mode list, the request "current" without a snapshot returns NULL;
  with a snapshot it returns the first mode equal to the snapshot's mode in every field,
  and when no mode is equal the call stops at the assertion instead of returning NULL.
\<close>

theorem select_mode_current:
  "select_mode ms None ''current'' = Null \<and>
   (select_mode ms (Some c) ''current'' = Mode_at i
      \<longleftrightarrow> is_first (\<lambda>m. m = crtc_mode c) ms i) \<and>
   (select_mode ms (Some c) ''current'' = Assert_failed \<longleftrightarrow> crtc_mode c \<notin> set ms) \<and>
   select_mode ms (Some c) ''current'' \<noteq> Null"
proof (cases "first_index (\<lambda>m. m = crtc_mode c) ms")
  case None
  then have "crtc_mode c \<notin> set ms" by (auto simp: first_index_None_iff)
  moreover from this have "\<not> is_first (\<lambda>m. m = crtc_mode c) ms i"
    by (auto simp: is_first_def dest: nth_mem)
  ultimately show ?thesis using None by (simp add: select_mode_def)
next
  case (Some k)
  then have k: "is_first (\<lambda>m. m = crtc_mode c) ms k" by (simp add: first_index_Some_iff)
  then have "k < length ms" and "ms ! k = crtc_mode c" by (simp_all add: is_first_def)
  then have "crtc_mode c \<in> set ms" using nth_mem [of k ms] by simp
  moreover have "is_first (\<lambda>m. m = crtc_mode c) ms i \<longleftrightarrow> k = i"
    using Some first_index_Some_iff [of "\<lambda>m. m = crtc_mode c" ms i] by auto
  ultimately show ?thesis using Some by (simp add: select_mode_def)
qed

theorem select_mode_current_witness:
  "is_first (\<lambda>m. m = crtc_mode (example_snapshot 1920 1080 50)) example_modes 1 \<and>
   select_mode example_modes (Some (example_snapshot 1920 1080 50)) ''current'' = Mode_at 1 \<and>
   crtc_mode (example_snapshot 800 600 60) \<notin> set example_modes \<and>
   select_mode example_modes (Some (example_snapshot 800 600 60)) ''current'' = Assert_failed \<and>
   select_mode example_modes None ''current'' = Null"
proof -
  have f: "is_first (\<lambda>m. m = crtc_mode (example_snapshot 1920 1080 50)) example_modes 1"
    by (simp add: is_first_def example_modes_def example_snapshot_def mk_mode_def)
  have n: "crtc_mode (example_snapshot 800 600 60) \<notin> set example_modes"
    by (simp add: example_modes_def example_snapshot_def mk_mode_def)
  from f n
    select_mode_current [of example_modes "example_snapshot 1920 1080 50" 1]
    select_mode_current [of example_modes "example_snapshot 800 600 60" 0]
  show ?thesis by simp
qed

text \<open>
  Claim C10: a numeric request with the rate 0 written out is accepted and behaves as the
  request without a rate: the first mode with the requested width and height is returned,
  whatever its refresh rate.
\<close>

theorem select_mode_zero_rate:
  assumes "fits_unsigned w" and "fits_unsigned h"
  shows "select_mode ms old (numeric_request w h (Some 0))
           = select_mode ms old (numeric_request w h None) \<and>
         (select_mode ms old (numeric_request w h (Some 0)) = Mode_at i
            \<longleftrightarrow> is_first (wanted w h None) ms i) \<and>
         (select_mode ms old (numeric_request w h (Some 0)) = Null
            \<longleftrightarrow> (\<forall>m\<in>set ms. \<not> wanted w h None m))"
proof -
  have P: "mode_matches (of_nat w) (of_nat h) 0 = wanted w h None"
    using assms by (auto simp: fun_eq_iff mode_matches_wanted fits_unsigned_def)
  have e: "select_mode ms old (numeric_request w h (Some 0))
             = select_mode ms old (numeric_request w h None)"
    by (simp add: select_mode_numeric_request)
  have "(select_mode ms old (numeric_request w h (Some 0)) = Mode_at i
            \<longleftrightarrow> is_first (wanted w h None) ms i) \<and>
        (select_mode ms old (numeric_request w h (Some 0)) = Null
            \<longleftrightarrow> (\<forall>m\<in>set ms. \<not> wanted w h None m))"
    by (rule select_mode_first_index_cases) (simp add: select_mode_numeric_request P)
  with e show ?thesis by simp
qed

theorem select_mode_zero_rate_witness:
  "fits_unsigned 1920 \<and> fits_unsigned 1080 \<and>
   numeric_request 1920 1080 (Some 0) = ''1920x1080@0'' \<and>
   numeric_request 1920 1080 None = ''1920x1080'' \<and>
   select_mode example_modes None ''1920x1080@0'' = select_mode example_modes None ''1920x1080'' \<and>
   select_mode example_modes None ''1920x1080@0'' = Mode_at 1"
proof -
  have a: "fits_unsigned 1920" "fits_unsigned 1080"
    by (simp_all add: fits_unsigned_def)
  have s: "numeric_request 1920 1080 (Some 0) = ''1920x1080@0''"
          "numeric_request 1920 1080 None = ''1920x1080''"
    by code_simp+
  have f: "is_first (wanted 1920 1080 None) example_modes 1"
    by (simp add: is_first_def wanted_def example_modes_def mk_mode_def)
  note t = select_mode_zero_rate [OF a, of example_modes None 1]
  have e: "select_mode example_modes None (numeric_request 1920 1080 (Some 0))
          = select_mode example_modes None (numeric_request 1920 1080 None)"
    using t by (rule conjunct1)
  have m: "select_mode example_modes None (numeric_request 1920 1080 (Some 0)) = Mode_at 1"
    using t f by blast
  from a s e m show ?thesis by simp
qed

text \<open>
  Claim C9: the mode selector called with the request "preferred" returns the mode at
  index 0 of the list, for every mode list and every optional snapshot.
\<close>

theorem select_mode_preferred: "select_mode ms old ''preferred'' = Mode_at 0"
  by (simp add: select_mode_def)

section \<open>Properties of the page-flip cycle\<close>

lemma upd_display_fields [simp]:
  "displays (upd_display i f b) = (displays b)[i := f (displays b ! i)]"
  "taken_crtcs (upd_display i f b) = taken_crtcs b"
  "events (upd_display i f b) = events b"
  "requests (upd_display i f b) = requests b"
  by (simp_all add: upd_display_def)

lemma add_event_fields [simp]:
  "displays (wlr_drm_add_event b i ev) = displays b"
  "taken_crtcs (wlr_drm_add_event b i ev) = taken_crtcs b"
  "events (wlr_drm_add_event b i ev) = events b @ [(i, ev)]"
  "requests (wlr_drm_add_event b i ev) = requests b"
  by (simp_all add: wlr_drm_add_event_def)

subsection \<open>The completion handler and the end of a frame\<close>

lemma page_flip_handler_displays:
  "displays (page_flip_handler u b)
     = (displays b)[u := (displays b ! u)\<lparr>pageflip_pending := True\<rparr>]"
  by (simp add: page_flip_handler_def Let_def)

lemma page_flip_handler_length [simp]:
  "length (displays (page_flip_handler u b)) = length (displays b)"
  by (simp add: page_flip_handler_displays)

lemma page_flip_handler_pending:
  assumes "i < length (displays b)"
  shows "pageflip_pending (displays (page_flip_handler u b) ! i)
           \<longleftrightarrow> u = i \<or> pageflip_pending (displays b ! i)"
  using assms by (cases "u = i") (simp_all add: page_flip_handler_displays)

lemma drmHandleEvent_length [simp]:
  "length (displays (drmHandleEvent ready b)) = length (displays b)"
  unfolding drmHandleEvent_def by (induction ready arbitrary: b) simp_all

lemma drmHandleEvent_keeps_pending:
  assumes "i < length (displays b)" and "pageflip_pending (displays b ! i)"
  shows "pageflip_pending (displays (drmHandleEvent ready b) ! i)"
  using assms unfolding drmHandleEvent_def
proof (induction ready arbitrary: b)
  case Nil
  then show ?case by simp
next
  case (Cons u us)
  have "pageflip_pending (displays (page_flip_handler u b) ! i)"
    using Cons.prems by (simp add: page_flip_handler_pending)
  with Cons.IH [of "page_flip_handler u b"] Cons.prems show ?case by simp
qed

text \<open>The wait loop is left only with the flag clear, and the handler never clears it.\<close>

lemma wait_pageflip_returns_clear_aux:
  assumes "wait_pageflip pumps k i b = Some b'"
  shows "i < length (displays b) \<longrightarrow> \<not> pageflip_pending (displays b ! i)"
proof (rule wait_pageflip.raw_induct
    [where P = "\<lambda>pumps k i b b'. i < length (displays b) \<longrightarrow> \<not> pageflip_pending (displays b ! i)",
     OF _ assms])
  fix w :: "(nat \<Rightarrow> nat list) \<Rightarrow> nat \<Rightarrow> nat \<Rightarrow> wlr_drm_backend \<Rightarrow> wlr_drm_backend option"
  fix pumps k i b b'
  assume IH: "\<And>p k i b y. w p k i b = Some y \<Longrightarrow>
                i < length (displays b) \<longrightarrow> \<not> pageflip_pending (displays b ! i)"
    and step: "(if pageflip_pending (displays b ! i)
                then w pumps (Suc k) i (drmHandleEvent (pumps k) b) else Some b) = Some b'"
  show "i < length (displays b) \<longrightarrow> \<not> pageflip_pending (displays b ! i)"
  proof (intro impI notI)
    assume len: "i < length (displays b)" and p: "pageflip_pending (displays b ! i)"
    from step p have r: "w pumps (Suc k) i (drmHandleEvent (pumps k) b) = Some b'"
      by simp
    have "\<not> pageflip_pending (displays (drmHandleEvent (pumps k) b) ! i)"
      using IH [OF r] len by simp
    with drmHandleEvent_keeps_pending [OF len p] show False by simp
  qed
qed

lemma wait_pageflip_returns_clear:
  assumes "wait_pageflip pumps k i b = Some b'" and "i < length (displays b)"
  shows "\<not> pageflip_pending (displays b ! i)"
  using wait_pageflip_returns_clear_aux [OF assms(1)] assms(2) by simp

lemma wait_pageflip_clear:
  "\<not> pageflip_pending (displays b ! i) \<Longrightarrow> wait_pageflip pumps k i b = Some b"
  by (simp add: wait_pageflip.simps)

lemma wait_pageflip_pending:
  assumes "i < length (displays b)" and "pageflip_pending (displays b ! i)"
  shows "wait_pageflip pumps k i b = None"
proof (cases "wait_pageflip pumps k i b")
  case None
  then show ?thesis .
next
  case (Some b')
  from wait_pageflip_returns_clear [OF Some assms(1)] assms(2) show ?thesis by simp
qed

subsection \<open>Teardown\<close>

text \<open>
  Claim C4, as the code has it: for every CONNECTED display that holds a snapshot of the
  previous CRTC configuration, \<open>wlr_drm_display_free\<close> does not return while the
  pending-flip flag is set, it returns when the flag is clear, and when it returns it has
  sent one \<open>drmModeSetCrtc\<close> with the values of the snapshot; a CONNECTED display without a
  snapshot is freed at once, without the wait and without the request.
\<close>

theorem display_free_waits_and_restores:
  assumes "i < length (displays b)" and "state (displays b ! i) = DRM_DISP_CONNECTED"
  shows "(old_crtc (displays b ! i) = Some c \<longrightarrow>
            (\<forall>b'. wlr_drm_display_free pumps (Some i) b = Some b' \<longrightarrow>
                 \<not> pageflip_pending (displays b' ! i) \<and>
                 requests b' = requests b @
                   [SetCrtc (crtc_id c) (buffer_id c) (crtc_x c) (crtc_y c)
                      (connector (displays b ! i)) (Some (crtc_mode c))]) \<and>
            (\<not> pageflip_pending (displays b ! i) \<longrightarrow>
               (\<exists>b'. wlr_drm_display_free pumps (Some i) b = Some b'))) \<and>
         (old_crtc (displays b ! i) = None \<longrightarrow>
            wlr_drm_display_free pumps (Some i) b = Some b)"
proof (intro conjI impI allI)
  assume "old_crtc (displays b ! i) = None"
  with assms show "wlr_drm_display_free pumps (Some i) b = Some b"
    by (simp add: wlr_drm_display_free_def)
next
  let ?b0 = "upd_display i (\<lambda>d. d\<lparr>cleanup := True\<rparr>) b"
  have p0: "pageflip_pending (displays ?b0 ! i) = pageflip_pending (displays b ! i)"
    using assms by simp
  have len0: "i < length (displays ?b0)"
    using assms by simp
  {
    assume c: "old_crtc (displays b ! i) = Some c"
      and np: "\<not> pageflip_pending (displays b ! i)"
    have "wait_pageflip pumps 0 i ?b0 = Some ?b0"
      using np p0 by (simp add: wait_pageflip_clear)
    with assms c show "\<exists>b'. wlr_drm_display_free pumps (Some i) b = Some b'"
      by (simp add: wlr_drm_display_free_def)
  }
  fix b'
  assume c: "old_crtc (displays b ! i) = Some c"
    and r: "wlr_drm_display_free pumps (Some i) b = Some b'"
  from r assms c obtain b1 where w: "wait_pageflip pumps 0 i ?b0 = Some b1"
    and b': "b' = restore_crtc c i b1"
    by (auto simp: wlr_drm_display_free_def split: option.splits)
  from wait_pageflip_returns_clear [OF w len0] p0
  have np: "\<not> pageflip_pending (displays b ! i)" by simp
  then have "wait_pageflip pumps 0 i ?b0 = Some ?b0"
    using p0 by (simp add: wait_pageflip_clear)
  with w have b1: "b1 = ?b0" by simp
  show "\<not> pageflip_pending (displays b' ! i)"
    using np assms by (simp add: b' b1 restore_crtc_def)
  show "requests b' = requests b @
          [SetCrtc (crtc_id c) (buffer_id c) (crtc_x c) (crtc_y c)
             (connector (displays b ! i)) (Some (crtc_mode c))]"
    using assms by (simp add: b' b1 restore_crtc_def)
qed

theorem display_free_waits_and_restores_witness:
  "wlr_drm_display_free no_completions (Some 0)
      (example_backend False False (Some (example_snapshot 1920 1080 60)))
     = Some (restore_crtc (example_snapshot 1920 1080 60) 0
               (example_backend False True (Some (example_snapshot 1920 1080 60)))) \<and>
   requests (restore_crtc (example_snapshot 1920 1080 60) 0
               (example_backend False True (Some (example_snapshot 1920 1080 60))))
     = [SetCrtc 40 7 0 0 5 (Some (mk_mode 1920 1080 60))]"
proof -
  let ?b = "example_backend False False (Some (example_snapshot 1920 1080 60))"
  have a: "0 < length (displays ?b)" "state (displays ?b ! 0) = DRM_DISP_CONNECTED"
    by (simp_all add: example_backend_def example_display_def)
  have c: "old_crtc (displays ?b ! 0) = Some (example_snapshot 1920 1080 60)"
    and np: "\<not> pageflip_pending (displays ?b ! 0)"
    by (simp_all add: example_backend_def example_display_def)
  from display_free_waits_and_restores [OF a, of "example_snapshot 1920 1080 60" no_completions] c np
  obtain b' where r: "wlr_drm_display_free no_completions (Some 0) ?b = Some b'"
    and q: "requests b' = requests ?b @ [SetCrtc 40 7 0 0 5 (Some (mk_mode 1920 1080 60))]"
    by (auto simp: example_snapshot_def example_backend_def example_display_def)
  have e: "wlr_drm_display_free no_completions (Some 0) ?b
        = Some (restore_crtc (example_snapshot 1920 1080 60) 0
               (example_backend False True (Some (example_snapshot 1920 1080 60))))"
    by (simp add: wlr_drm_display_free_def upd_display_def example_backend_def
          example_display_def wait_pageflip.simps)
  with r q show ?thesis
    by (simp add: example_backend_def)
qed

text \<open>
  A CONNECTED display whose flag is set and that has no snapshot: the call returns with the
  flag still set and sends nothing to the device.
\<close>

theorem display_free_without_snapshot_counterexample:
  "wlr_drm_display_free no_completions (Some 0) (example_backend True False None)
     = Some (example_backend True False None) \<and>
   state (displays (example_backend True False None) ! 0) = DRM_DISP_CONNECTED \<and>
   pageflip_pending (displays (example_backend True False None) ! 0) \<and>
   requests (example_backend True False None) = []"
  by (simp add: wlr_drm_display_free_def example_backend_def example_display_def)

text \<open>
  Claim C1 says that the completion handler clears the pending-flip flag. The handler of
  drm.c assigns \<open>true\<close>: called for a display whose flag is clear and that is not being
  torn down, it leaves the flag set (and queues the RENDER event).
\<close>

theorem page_flip_handler_sets_pending:
  "pageflip_pending (displays (page_flip_handler 0 (example_backend False False None)) ! 0) \<and>
   events (page_flip_handler 0 (example_backend False False None)) = [(0, DRM_EV_RENDER)]"
  by (simp add: page_flip_handler_def Let_def example_backend_def example_display_def)

text \<open>
  Claim C2 says that the flag is set when \<open>wlr_drm_display_end\<close> returns. The function of
  drm.c assigns \<open>false\<close> after the page-flip request: called for a display whose flag is
  set, it leaves the flag clear.
\<close>

theorem display_end_clears_pending:
  "\<not> pageflip_pending (displays (wlr_drm_display_end 9 0 (example_backend True False None)) ! 0) \<and>
   requests (wlr_drm_display_end 9 0 (example_backend True False None)) = [PageFlip 40 9 0]"
  by (simp add: wlr_drm_display_end_def example_backend_def example_display_def)

section \<open>Properties of mode setting\<close>

subsection \<open>Bits of the CRTC mask\<close>

lemma bit_one_shifted: "bit (push_bit j 1 :: 32 word) n \<longleftrightarrow> n = j \<and> j < 32"
  by (auto simp: bit_exp_iff)

lemma bit_two_power: "bit (2 ^ j :: 32 word) n \<longleftrightarrow> n = j \<and> j < 32"
  using bit_one_shifted [of j n] by simp

lemma crtc_usable_free:
  assumes "crtc_usable possible taken j"
  shows "j < 32 \<and> \<not> bit taken j"
proof -
  from assms have nz: "possible AND push_bit j 1 \<noteq> 0" and z: "taken AND push_bit j 1 = 0"
    by (simp_all add: crtc_usable_def)
  have j: "j < 32"
  proof (rule ccontr)
    assume "\<not> j < 32"
    then have "possible AND push_bit j 1 = 0"
      by (intro bit_eqI) (simp add: bit_and_iff bit_two_power)
    with nz show False by blast
  qed
  have "\<not> bit taken j"
  proof
    assume "bit taken j"
    with j have "bit (taken AND push_bit j 1) j"
      by (simp add: bit_and_iff bit_two_power)
    with z show False by simp
  qed
  with j show ?thesis by simp
qed

lemma bit_taken_or: "bit (taken OR push_bit j 1 :: 32 word) n \<longleftrightarrow> bit taken n \<or> (n = j \<and> j < 32)"
  by (simp add: bit_or_iff bit_two_power)

lemma find_crtc_Some:
  assumes "find_crtc hw taken n es = Some j"
  shows "j < n \<and> j < 32 \<and> \<not> bit taken j"
  using assms
proof (induction es)
  case Nil
  then show ?case by simp
next
  case (Cons e es)
  show ?case
  proof (cases "drmModeGetEncoder hw e")
    case None
    with Cons show ?thesis by simp
  next
    case (Some enc)
    show ?thesis
    proof (cases "find (crtc_usable (possible_crtcs enc) taken) [0..<n]")
      case None
      with Some Cons show ?thesis by simp
    next
      case (Some j')
      with \<open>drmModeGetEncoder hw e = Some enc\<close> Cons.prems have "j' = j" by simp
      with Some have "crtc_usable (possible_crtcs enc) taken j" and "j \<in> set [0..<n]"
        by (auto simp: find_Some_iff)
      with crtc_usable_free [of "possible_crtcs enc" taken j] show ?thesis by simp
    qed
  qed
qed

subsection \<open>What a modeset changes\<close>

lemma modeset_error_result:
  "modeset_error i b = Returned (ok, b') \<longleftrightarrow>
     \<not> ok \<and> b' = wlr_drm_add_event (upd_display i (\<lambda>d. d\<lparr>state := DRM_DISP_DISCONNECTED\<rparr>) b)
                    i DRM_EV_DISPLAY_REM"
  by (auto simp: modeset_error_def)

lemma display_init_renderer_fields [simp]:
  "displays (snd (display_init_renderer hw i b)) = displays b"
  "taken_crtcs (snd (display_init_renderer hw i b)) = taken_crtcs b"
  "events (snd (display_init_renderer hw i b)) = events b"
  by (simp_all add: display_init_renderer_def Let_def)

lemma modeset_error_failed:
  assumes "modeset_error i b0 = Returned (ok, b')"
    and "taken_crtcs b0 = taken_crtcs b" and "events b0 = events b"
    and "displays b0 = (displays b)[i := d0]" and "crtc d0 = crtc (displays b ! i)"
    and "i < length (displays b)"
  shows "\<not> ok \<and> modeset_failed i b b'"
  using assms by (auto simp: modeset_error_result modeset_failed_def)

lemma modeset_cases:
  assumes "i < length (displays b)"
    and "wlr_drm_display_modeset hw i str b = Returned (ok, b')"
  shows "(\<not> ok \<and> modeset_failed i b b') \<or> (ok \<and> modeset_done hw i b b')"
proof (cases "drmModeGetConnector hw (connector (displays b ! i))")
  case None
  with assms have "modeset_error i b = Returned (ok, b')"
    by (simp add: wlr_drm_display_modeset_def)
  from modeset_error_failed [OF this, of b "displays b ! i"] assms show ?thesis by simp
next
  case (Some conn)
  note conn = Some
  show ?thesis
  proof (cases "connection conn \<noteq> DRM_MODE_CONNECTED \<or> conn_modes conn = []")
    case True
    with assms conn have "modeset_error i b = Returned (ok, b')"
      by (simp add: wlr_drm_display_modeset_def)
    from modeset_error_failed [OF this, of b "displays b ! i"] assms show ?thesis by simp
  next
    case False
    note usable = False
    show ?thesis
    proof (cases "alloc_ok hw")
      case False
      let ?b0 = "upd_display i (\<lambda>d. d\<lparr>num_modes := length (conn_modes conn), modes := None\<rparr>) b"
      from assms conn usable False have "modeset_error i ?b0 = Returned (ok, b')"
        by (simp add: wlr_drm_display_modeset_def)
      from modeset_error_failed [OF this, of b] assms show ?thesis by simp
    next
      case True
      let ?b1 = "upd_display i
                   (\<lambda>d. d\<lparr>num_modes := length (conn_modes conn),
                           modes := Some (conn_modes conn),
                           old_crtc := lookup_old_crtc hw conn d\<rparr>) b"
      let ?sel = "select_mode (conn_modes conn) (old_crtc (displays ?b1 ! i)) str"
      have unf: "wlr_drm_display_modeset hw i str b =
        (case ?sel of
           Assert_failed \<Rightarrow> Aborted
         | Null \<Rightarrow> modeset_error i (upd_display i (\<lambda>d. d\<lparr>active_mode := None\<rparr>) ?b1)
         | Mode_at k \<Rightarrow>
             let b2 = upd_display i (\<lambda>d. d\<lparr>active_mode := Some k\<rparr>) ?b1 in
             (case drmModeGetResources hw of
                None \<Rightarrow> modeset_error i b2
              | Some res \<Rightarrow>
                  (case find_crtc hw (taken_crtcs b2) (length (crtcs res)) (encoders conn) of
                     None \<Rightarrow> modeset_error i b2
                   | Some j \<Rightarrow>
                       let b3 = upd_display i
                                  (\<lambda>d. d\<lparr>crtc := crtcs res ! j,
                                          state := DRM_DISP_CONNECTED,
                                          width := ucast (hdisplay (conn_modes conn ! k)),
                                          height := ucast (vdisplay (conn_modes conn ! k))\<rparr>)
                                  (b2\<lparr>taken_crtcs := taken_crtcs b2 OR push_bit j 1\<rparr>)
                       in Returned (True, snd (display_init_renderer hw i b3)))))"
        using conn usable True by (simp add: wlr_drm_display_modeset_def Let_def)
      show ?thesis
      proof (cases ?sel)
        case Assert_failed
        with unf assms show ?thesis by simp
      next
        case Null
        let ?b0 = "upd_display i (\<lambda>d. d\<lparr>active_mode := None\<rparr>) ?b1"
        from unf Null assms have "modeset_error i ?b0 = Returned (ok, b')" by simp
        from modeset_error_failed [OF this, of b] assms show ?thesis by simp
      next
        case (Mode_at k)
        let ?b2 = "upd_display i (\<lambda>d. d\<lparr>active_mode := Some k\<rparr>) ?b1"
        show ?thesis
        proof (cases "drmModeGetResources hw")
          case None
          from unf Mode_at None assms have "modeset_error i ?b2 = Returned (ok, b')"
            by (simp add: Let_def)
          from modeset_error_failed [OF this, of b] assms show ?thesis by simp
        next
          case (Some res)
          show ?thesis
          proof (cases "find_crtc hw (taken_crtcs b) (length (crtcs res)) (encoders conn)")
            case None
            from unf Mode_at Some None assms have "modeset_error i ?b2 = Returned (ok, b')"
              by (simp add: Let_def)
            from modeset_error_failed [OF this, of b] assms show ?thesis by simp
          next
            case (Some j)
            note j = find_crtc_Some [OF Some]
            let ?b3 = "upd_display i
                         (\<lambda>d. d\<lparr>crtc := crtcs res ! j,
                                 state := DRM_DISP_CONNECTED,
                                 width := ucast (hdisplay (conn_modes conn ! k)),
                                 height := ucast (vdisplay (conn_modes conn ! k))\<rparr>)
                         (?b2\<lparr>taken_crtcs := taken_crtcs b OR push_bit j 1\<rparr>)"
            from unf Mode_at \<open>drmModeGetResources hw = Some res\<close> Some assms
            have ok: "ok" and b': "b' = snd (display_init_renderer hw i ?b3)"
              by (simp_all add: Let_def)
            let ?d' = "(displays b ! i)
                   \<lparr>num_modes := length (conn_modes conn),
                      modes := Some (conn_modes conn),
                      old_crtc := lookup_old_crtc hw conn (displays b ! i),
                      active_mode := Some k, crtc := crtcs res ! j,
                      state := DRM_DISP_CONNECTED,
                      width := ucast (hdisplay (conn_modes conn ! k)),
                      height := ucast (vdisplay (conn_modes conn ! k))\<rparr>"
            have "modeset_done hw i b b'"
              unfolding modeset_done_def
              using j \<open>drmModeGetResources hw = Some res\<close> assms(1)
              by (intro conjI exI [of _ res] exI [of _ j] exI [of _ ?d']) (simp_all add: b')
            with ok show ?thesis by simp
          qed
        qed
      qed
    qed
  qed
qed

lemma modeset_failure_returns:
  assumes "i < length (displays b)"
    and "modeset_failure hw (displays b ! i) (taken_crtcs b) str = Some f"
  shows "\<exists>b'. wlr_drm_display_modeset hw i str b = Returned (False, b')"
  using assms
  by (auto simp: modeset_failure_def wlr_drm_display_modeset_def modeset_error_def Let_def
           split: option.splits if_splits mode_result.splits)

text \<open>
  Claim C6: for every display, whenever modeset gives up for one of the recoverable causes
  (the connector query fails, the connector is not connected or has no modes, the mode list
  cannot be allocated, no mode matches, the resources query fails, or no compatible CRTC is
  free), it returns failure; and whenever it returns failure, the display is DISCONNECTED
  and exactly one REM event for it has been added to the queue.
\<close>

theorem modeset_failure_rolls_back:
  assumes "i < length (displays b)"
  shows "(modeset_failure hw (displays b ! i) (taken_crtcs b) str \<noteq> None \<longrightarrow>
            (\<exists>b'. wlr_drm_display_modeset hw i str b = Returned (False, b'))) \<and>
         (\<forall>b'. wlr_drm_display_modeset hw i str b = Returned (False, b') \<longrightarrow>
            state (displays b' ! i) = DRM_DISP_DISCONNECTED \<and>
            events b' = events b @ [(i, DRM_EV_DISPLAY_REM)])"
proof (intro conjI impI allI)
  assume "modeset_failure hw (displays b ! i) (taken_crtcs b) str \<noteq> None"
  then obtain f where "modeset_failure hw (displays b ! i) (taken_crtcs b) str = Some f"
    by auto
  from modeset_failure_returns [OF assms this]
  show "\<exists>b'. wlr_drm_display_modeset hw i str b = Returned (False, b')" .
next
  fix b'
  assume "wlr_drm_display_modeset hw i str b = Returned (False, b')"
  from modeset_cases [OF assms this] have f: "modeset_failed i b b'" by simp
  then obtain d' where "displays b' = (displays b)[i := d']"
    and "state d' = DRM_DISP_DISCONNECTED"
    by (auto simp: modeset_failed_def)
  with assms show "state (displays b' ! i) = DRM_DISP_DISCONNECTED" by simp
  from f show "events b' = events b @ [(i, DRM_EV_DISPLAY_REM)]"
    by (simp add: modeset_failed_def)
qed

lemma example_plugged_backend_fields:
  "length (displays example_plugged_backend) = 1"
  "state (displays example_plugged_backend ! 0) = DRM_DISP_NEEDS_MODESET"
  "connector (displays example_plugged_backend ! 0) = 5"
  "old_crtc (displays example_plugged_backend ! 0) = None"
  "taken_crtcs example_plugged_backend = 0"
  "events example_plugged_backend = [(0, DRM_EV_DISPLAY_ADD)]"
  by (simp_all add: example_plugged_backend_def wlr_drm_scan_connectors_def backend_init_def
        example_device_def example_connector_def scan_connector_def scan_first_seen_def
        scan_hotplug_def new_display_def Let_def)

lemma example_no_matching_mode:
  "select_mode example_modes None ''800x600'' = Null"
  by code_simp

theorem modeset_failure_rolls_back_witness:
  "modeset_failure (example_device True 0) (displays example_plugged_backend ! 0)
      (taken_crtcs example_plugged_backend) ''800x600'' = Some No_matching_mode \<and>
   (\<exists>b'. wlr_drm_display_modeset (example_device True 0) 0 ''800x600'' example_plugged_backend
            = Returned (False, b') \<and>
         state (displays b' ! 0) = DRM_DISP_DISCONNECTED \<and>
         events b' = [(0, DRM_EV_DISPLAY_ADD), (0, DRM_EV_DISPLAY_REM)])"
proof -
  have len: "0 < length (displays example_plugged_backend)"
    by (simp add: example_plugged_backend_fields)
  have f: "modeset_failure (example_device True 0) (displays example_plugged_backend ! 0)
      (taken_crtcs example_plugged_backend) ''800x600'' = Some No_matching_mode"
    by (simp add: modeset_failure_def example_plugged_backend_fields example_device_def
          example_connector_def lookup_old_crtc_def example_no_matching_mode)
       (simp add: example_modes_def)
  from modeset_failure_rolls_back [OF len, of "example_device True 0" "''800x600''"] f
  show ?thesis
    by (auto simp: example_plugged_backend_fields)
qed


section \<open>Properties of the display state machine\<close>

subsection \<open>Walks\<close>

lemma walk_edge: "edge s es t \<Longrightarrow> walk s es t"
  using walk.move [OF walk.stay, of s es t] by simp

lemma walk_trans:
  assumes "walk s es t" and "walk t es' u"
  shows "walk s (es @ es') u"
  using assms(2) assms(1)
proof (induction rule: walk.induct)
  case (stay t)
  then show ?case by simp
next
  case (move t es1 v es2 u)
  from walk.move [OF move.IH [OF move.prems] move.hyps(2)] show ?case by simp
qed

lemma new_events_append:
  assumes "events b' = events b @ es"
  shows "new_events b b' k = map snd (filter (\<lambda>e. fst e = k) es)"
  using assms by (simp add: new_events_def)

lemma new_events_chain:
  assumes "events b' = events b @ es" and "events b'' = events b' @ es'"
  shows "new_events b b'' k = new_events b b' k @ new_events b' b'' k"
  using assms by (simp add: new_events_def)

lemma evolves_refl: "evolves b b"
  by (simp add: evolves_def new_events_def walk.stay)

lemma evolves_trans:
  assumes "evolves b b'" and "evolves b' b''"
  shows "evolves b b''"
proof -
  from assms obtain es es' where e: "events b' = events b @ es" "events b'' = events b' @ es'"
    by (auto simp: evolves_def)
  have "walk (slot_state b k) (new_events b b'' k) (slot_state b'' k)" for k
    using assms walk_trans [of "slot_state b k" "new_events b b' k" "slot_state b' k"
                               "new_events b' b'' k" "slot_state b'' k"]
    by (simp add: evolves_def new_events_chain [OF e])
  with e show ?thesis by (simp add: evolves_def)
qed

lemma filter_events_of_slot:
  "map snd (filter (\<lambda>e. fst e = k) (map (Pair i) es)) = (if k = i then es else [])"
  by (induction es) auto

lemma new_events_slot:
  assumes "events b' = events b @ map (Pair i) es"
  shows "new_events b b' k = (if k = i then es else [])"
  by (simp only: new_events_append [OF assms] filter_events_of_slot)

lemma slot_walk_evolves:
  assumes "i < length (displays b)" and "slot_walk i b b'"
  shows "evolves b b'"
proof -
  from assms(2) obtain d' es where d: "displays b' = (displays b)[i := d']"
    and e: "events b' = events b @ map (Pair i) es"
    and w: "walk (state (displays b ! i)) es (state d')"
    by (auto simp: slot_walk_def)
  have "walk (slot_state b k) (new_events b b' k) (slot_state b' k)" for k
  proof (cases "k = i")
    case True
    with assms(1) d w show ?thesis
      by (simp add: slot_state_def new_events_slot [OF e])
  next
    case False
    with d show ?thesis
      by (simp add: slot_state_def new_events_slot [OF e] walk.stay)
  qed
  with e show ?thesis by (auto simp: evolves_def)
qed

lemma slot_walk_refl: "slot_walk i b b"
proof -
  have "displays b = (displays b)[i := displays b ! i]" by simp
  moreover have "events b = events b @ map (Pair i) []" by simp
  ultimately show ?thesis
    unfolding slot_walk_def using walk.stay by blast
qed

lemma slot_walkI:
  assumes "displays b' = (displays b)[i := d']" and "events b' = events b @ map (Pair i) es"
    and "walk (state (displays b ! i)) es (state d')"
  shows "slot_walk i b b'"
  using assms unfolding slot_walk_def by blast

subsection \<open>One connector of a scan\<close>

lemma scan_first_seen_walk: "slot_walk i b (scan_first_seen cid i b)"
proof (cases "state (displays b ! i) = DRM_DISP_INVALID")
  case True
  show ?thesis
    by (rule slot_walkI [where es = "[]"
          and d' = "(displays b ! i)\<lparr>state := DRM_DISP_DISCONNECTED, connector := cid\<rparr>"])
       (simp_all add: scan_first_seen_def True walk_edge)
next
  case False
  then show ?thesis by (simp add: scan_first_seen_def slot_walk_refl)
qed

lemma scan_hotplug_walk: "slot_walk i b (scan_hotplug conn i b)"
proof -
  consider (add) "state (displays b ! i) = DRM_DISP_DISCONNECTED" "connection conn = DRM_MODE_CONNECTED"
    | (rem) "state (displays b ! i) = DRM_DISP_CONNECTED" "connection conn \<noteq> DRM_MODE_CONNECTED"
    | (none) "\<not> (state (displays b ! i) = DRM_DISP_DISCONNECTED \<and> connection conn = DRM_MODE_CONNECTED)"
             "\<not> (state (displays b ! i) = DRM_DISP_CONNECTED \<and> connection conn \<noteq> DRM_MODE_CONNECTED)"
    by blast
  then show ?thesis
  proof cases
    case add
    show ?thesis
      by (rule slot_walkI [where es = "[DRM_EV_DISPLAY_ADD]"
            and d' = "(displays b ! i)\<lparr>state := DRM_DISP_NEEDS_MODESET\<rparr>"])
         (simp_all add: scan_hotplug_def add walk_edge)
  next
    case rem
    show ?thesis
      by (rule slot_walkI [where es = "[DRM_EV_DISPLAY_REM]"
            and d' = "(displays b ! i)\<lparr>state := DRM_DISP_DISCONNECTED\<rparr>"])
         (simp_all add: scan_hotplug_def rem walk_edge)
  next
    case none
    then show ?thesis by (auto simp: scan_hotplug_def slot_walk_refl)
  qed
qed

lemma scan_first_seen_length [simp]:
  "length (displays (scan_first_seen cid i b)) = length (displays b)"
  by (simp add: scan_first_seen_def)

lemma scan_hotplug_length [simp]:
  "length (displays (scan_hotplug conn i b)) = length (displays b)"
  by (simp add: scan_hotplug_def)

lemma scan_connector_length [simp]:
  "length (displays (scan_connector hw res i b)) = length (displays b)"
  by (simp add: scan_connector_def split: option.splits)

lemma scan_connector_evolves:
  assumes "i < length (displays b)"
  shows "evolves b (scan_connector hw res i b)"
proof (cases "drmModeGetConnector hw (connectors res ! i)")
  case None
  then show ?thesis by (simp add: scan_connector_def evolves_refl)
next
  case (Some conn)
  let ?b1 = "scan_first_seen (connectors res ! i) i b"
  have "evolves b ?b1"
    using assms scan_first_seen_walk by (rule slot_walk_evolves)
  moreover have "evolves ?b1 (scan_hotplug conn i ?b1)"
    using assms scan_hotplug_walk [of i ?b1 conn] by (intro slot_walk_evolves) simp_all
  ultimately show ?thesis
    using Some by (simp add: scan_connector_def) (rule evolves_trans)
qed

lemma keeps_crtcs_refl: "keeps_crtcs b b"
  by (simp add: keeps_crtcs_def)

lemma keeps_crtcs_trans:
  assumes "keeps_crtcs b b'" and "keeps_crtcs b' b''"
  shows "keeps_crtcs b b''"
  using assms unfolding keeps_crtcs_def by fastforce

lemma nth_update_cases:
  "k < length xs \<Longrightarrow> xs[i := x] ! k = (if i = k then x else xs ! k)"
  by (cases "i = k") simp_all

lemma scan_first_seen_keeps: "keeps_crtcs b (scan_first_seen cid i b)"
  by (auto simp: keeps_crtcs_def scan_first_seen_def nth_update_cases)

lemma scan_hotplug_keeps: "keeps_crtcs b (scan_hotplug conn i b)"
  by (auto simp: keeps_crtcs_def scan_hotplug_def nth_update_cases)

lemma scan_connector_keeps: "keeps_crtcs b (scan_connector hw res i b)"
proof (cases "drmModeGetConnector hw (connectors res ! i)")
  case None
  then show ?thesis by (simp add: scan_connector_def keeps_crtcs_refl)
next
  case (Some conn)
  from keeps_crtcs_trans [OF scan_first_seen_keeps scan_hotplug_keeps] Some
  show ?thesis by (simp add: scan_connector_def)
qed

subsection \<open>The whole scan\<close>

lemma scan_loop:
  assumes "\<forall>i\<in>set is. i < length (displays b)"
  shows "evolves b (fold (scan_connector hw res) is b) \<and>
         keeps_crtcs b (fold (scan_connector hw res) is b)"
  using assms
proof (induction "is" arbitrary: b)
  case Nil
  show ?case by (simp add: evolves_refl keeps_crtcs_refl)
next
  case (Cons i "is")
  let ?b1 = "scan_connector hw res i b"
  have 1: "evolves b ?b1" "keeps_crtcs b ?b1"
    using Cons.prems by (simp_all add: scan_connector_evolves scan_connector_keeps)
  have "\<forall>i\<in>set is. i < length (displays ?b1)"
    using Cons.prems by simp
  from Cons.IH [OF this] 1 show ?case
    by (auto intro: evolves_trans keeps_crtcs_trans)
qed

lemma grow_evolves:
  "evolves b (b\<lparr>displays := displays b @ replicate m new_display\<rparr>)"
proof -
  have "slot_state (b\<lparr>displays := displays b @ replicate m new_display\<rparr>) k = slot_state b k" for k
    by (simp add: slot_state_def nth_append new_display_def)
  then show ?thesis
    by (simp add: evolves_def new_events_def walk.stay)
qed

lemma grow_keeps:
  "keeps_crtcs b (b\<lparr>displays := displays b @ replicate m new_display\<rparr>)"
  by (auto simp: keeps_crtcs_def nth_append new_display_def)

lemma scan_connectors_rel:
  "evolves b (wlr_drm_scan_connectors hw b) \<and> keeps_crtcs b (wlr_drm_scan_connectors hw b)"
proof (cases "drmModeGetResources hw")
  case None
  then show ?thesis by (simp add: wlr_drm_scan_connectors_def evolves_refl keeps_crtcs_refl)
next
  case (Some res)
  let ?n = "length (connectors res)"
  show ?thesis
  proof (cases "?n > length (displays b)")
    case False
    then have "\<forall>i\<in>set [0..<?n]. i < length (displays b)" by simp
    from scan_loop [OF this] Some False show ?thesis
      by (simp add: wlr_drm_scan_connectors_def Let_def)
  next
    case True
    show ?thesis
    proof (cases "alloc_ok hw")
      case False
      with Some True show ?thesis
        by (simp add: wlr_drm_scan_connectors_def evolves_refl keeps_crtcs_refl)
    next
      case ok: True
      let ?g = "b\<lparr>displays := displays b @ replicate (?n - length (displays b)) new_display\<rparr>"
      have "\<forall>i\<in>set [0..<?n]. i < length (displays ?g)"
        using True by simp
      from scan_loop [OF this, of hw res]
      have "evolves b (fold (scan_connector hw res) [0..<?n] ?g)"
           "keeps_crtcs b (fold (scan_connector hw res) [0..<?n] ?g)"
        using grow_evolves [of b] grow_keeps [of b]
        by (auto intro: evolves_trans keeps_crtcs_trans)
      with Some True ok show ?thesis
        by (simp add: wlr_drm_scan_connectors_def Let_def)
    qed
  qed
qed


subsection \<open>Calls that follow the protocol\<close>

lemma modeset_evolves:
  assumes "i < length (displays b)" and "state (displays b ! i) = DRM_DISP_NEEDS_MODESET"
    and "wlr_drm_display_modeset hw i str b = Returned (ok, b')"
  shows "evolves b b'"
proof -
  from modeset_cases [OF assms(1,3)]
  have "slot_walk i b b'"
  proof
    assume "\<not> ok \<and> modeset_failed i b b'"
    then obtain d' where "displays b' = (displays b)[i := d']"
      and "state d' = DRM_DISP_DISCONNECTED"
      and "events b' = events b @ map (Pair i) [DRM_EV_DISPLAY_REM]"
      by (auto simp: modeset_failed_def)
    then show ?thesis
      using assms(2)
      by (intro slot_walkI [where d' = d' and es = "[DRM_EV_DISPLAY_REM]"])
         (simp_all add: walk_edge)
  next
    assume "ok \<and> modeset_done hw i b b'"
    then obtain d' where "displays b' = (displays b)[i := d']"
      and "state d' = DRM_DISP_CONNECTED"
      and "events b' = events b @ map (Pair i) []"
      by (auto simp: modeset_done_def)
    then show ?thesis
      using assms(2)
      by (intro slot_walkI [where d' = d' and es = "[]"]) (simp_all add: walk_edge)
  qed
  with assms(1) show ?thesis by (rule slot_walk_evolves)
qed

lemma exec_protocol_evolves:
  assumes "follows_protocol x b" and "exec x b = Some b'"
  shows "evolves b b'"
proof (cases x)
  case (Scan hw)
  with assms(2) scan_connectors_rel [of b hw] show ?thesis by simp
next
  case (Modeset hw i str)
  from assms(1) Modeset have i: "i < length (displays b)"
    and st: "state (displays b ! i) = DRM_DISP_NEEDS_MODESET"
    by simp_all
  from assms(2) Modeset i obtain r where "wlr_drm_display_modeset hw i str b = Returned r"
    and "b' = snd r"
    by (cases "wlr_drm_display_modeset hw i str b") simp_all
  then have "wlr_drm_display_modeset hw i str b = Returned (fst r, b')"
    by simp
  from modeset_evolves [OF i st this] show ?thesis .
next
  case (Free pumps disp)
  with assms(1) show ?thesis by simp
next
  case (End fb i)
  with assms(1) show ?thesis by simp
next
  case (Event ready)
  with assms(1) show ?thesis by simp
qed

lemma run_protocol_evolves:
  assumes "run_protocol ops b = Some b'"
  shows "evolves b b'"
  using assms
proof (induction ops arbitrary: b)
  case Nil
  then show ?case by (simp add: evolves_refl)
next
  case (Cons x xs)
  from Cons.prems obtain b1 where p: "follows_protocol x b" and e: "exec x b = Some b1"
    and r: "run_protocol xs b1 = Some b'"
    by (auto split: if_splits option.splits)
  from exec_protocol_evolves [OF p e] Cons.IH [OF r] show ?case by (rule evolves_trans)
qed

text \<open>
  Claim C5, as the code has it: for every sequence of scans and of modesets that are each
  applied to a display in state NEEDS_MODESET, every display's state moves along a walk of
  the graph INVALID to DISCONNECTED, DISCONNECTED to NEEDS_MODESET (ADD), NEEDS_MODESET to
  CONNECTED, NEEDS_MODESET to DISCONNECTED (REM), CONNECTED to DISCONNECTED (REM), and the
  events queued for the display are exactly those of the edges walked, in order.
\<close>

theorem protocol_run_walks_graph:
  assumes "run_protocol ops b = Some b'"
  shows "walk (slot_state b k) (new_events b b' k) (slot_state b' k)"
  using run_protocol_evolves [OF assms] by (simp add: evolves_def)


subsection \<open>The example device\<close>

lemma example_scan_fresh:
  "wlr_drm_scan_connectors (example_device p e) backend_init =
     \<lparr>displays = [new_display\<lparr>state := (if p then DRM_DISP_NEEDS_MODESET else DRM_DISP_DISCONNECTED),
                                connector := 5\<rparr>],
      taken_crtcs = 0, events = (if p then [(0, DRM_EV_DISPLAY_ADD)] else []), requests = []\<rparr>"
  by (simp add: wlr_drm_scan_connectors_def backend_init_def
        example_device_def example_connector_def scan_connector_def scan_first_seen_def
        scan_hotplug_def upd_display_def wlr_drm_add_event_def new_display_def Let_def)

lemma example_find_crtc:
  "find_crtc (example_device p e) 0 (Suc 0) [3] = Some 0"
  by (simp add: example_device_def crtc_usable_def)

lemma example_modeset_preferred:
  assumes "displays b = [d]" and "connector d = 5" and "taken_crtcs b = 0"
  shows "\<exists>b'. wlr_drm_display_modeset (example_device True e) 0 ''preferred'' b = Returned (True, b') \<and>
           map state (displays b') = [DRM_DISP_CONNECTED] \<and> taken_crtcs b' = 1 \<and>
           events b' = events b \<and>
           map pageflip_pending (displays b') = [pageflip_pending d] \<and>
           map old_crtc (displays b')
             = [if e = 3 then Some (example_snapshot 1280 720 60) else old_crtc d]"
  using assms
  by (simp add: wlr_drm_display_modeset_def example_device_def example_connector_def
        example_modes_def select_mode_def crtc_usable_def lookup_old_crtc_def Let_def)

lemma example_state_after_unplugged:
  "state_after [Scan (example_device False 0)] 0 = Some DRM_DISP_DISCONNECTED"
  by (simp add: state_after_def example_scan_fresh slot_state_def)

lemma example_state_after_modeset:
  "state_after [Scan (example_device False 0),
                Modeset (example_device True 0) 0 ''preferred''] 0 = Some DRM_DISP_CONNECTED"
proof -
  let ?b = "wlr_drm_scan_connectors (example_device False 0) backend_init"
  have "displays ?b = [new_display\<lparr>state := DRM_DISP_DISCONNECTED, connector := 5\<rparr>]"
    and "taken_crtcs ?b = 0"
    by (simp_all add: example_scan_fresh)
  from example_modeset_preferred [OF this(1) _ this(2), of 0]
  obtain b' where "wlr_drm_display_modeset (example_device True 0) 0 ''preferred'' ?b
                     = Returned (True, b')"
    and "map state (displays b') = [DRM_DISP_CONNECTED]"
    by auto
  moreover from this(2) obtain d' where "displays b' = [d']" and "state d' = DRM_DISP_CONNECTED"
    by (cases "displays b'") auto
  ultimately show ?thesis
    by (simp add: state_after_def slot_state_def example_scan_fresh)
qed

text \<open>
  \<open>wlr_drm_display_modeset\<close> does not look at the state of the display it is given. A
  display that a scan left DISCONNECTED, and whose monitor is attached by the time modeset
  is called for it, goes from DISCONNECTED to CONNECTED, which is not an edge of the graph.
\<close>

theorem modeset_of_disconnected_counterexample:
  "state_after [Scan (example_device False 0)] 0 = Some DRM_DISP_DISCONNECTED \<and>
   state_after [Scan (example_device False 0),
                Modeset (example_device True 0) 0 ''preferred''] 0 = Some DRM_DISP_CONNECTED \<and>
   \<not> edge DRM_DISP_DISCONNECTED [] DRM_DISP_CONNECTED"
  by (simp add: example_state_after_unplugged example_state_after_modeset)

lemma example_run_plug_modeset:
  "\<exists>b'. run [Scan (example_device True 0), Modeset (example_device True 0) 0 ''preferred''] backend_init
           = Some b' \<and>
         run_protocol [Scan (example_device True 0), Modeset (example_device True 0) 0 ''preferred'']
           backend_init = Some b' \<and>
         map state (displays b') = [DRM_DISP_CONNECTED] \<and> taken_crtcs b' = 1 \<and>
         events b' = [(0, DRM_EV_DISPLAY_ADD)]"
proof -
  let ?b = "wlr_drm_scan_connectors (example_device True 0) backend_init"
  have d: "displays ?b = [new_display\<lparr>state := DRM_DISP_NEEDS_MODESET, connector := 5\<rparr>]"
    and t: "taken_crtcs ?b = 0" and e: "events ?b = [(0, DRM_EV_DISPLAY_ADD)]"
    by (simp_all add: example_scan_fresh)
  from example_modeset_preferred [OF d _ t, of 0]
  obtain b' where "wlr_drm_display_modeset (example_device True 0) 0 ''preferred'' ?b
                     = Returned (True, b')"
    and "map state (displays b') = [DRM_DISP_CONNECTED]" and "taken_crtcs b' = 1"
    and "events b' = events ?b"
    by auto
  then show ?thesis
    using d e by simp
qed

theorem protocol_run_walks_graph_witness:
  "\<exists>b'. run_protocol [Scan (example_device True 0), Modeset (example_device True 0) 0 ''preferred'']
           backend_init = Some b' \<and>
         slot_state backend_init 0 = DRM_DISP_INVALID \<and>
         new_events backend_init b' 0 = [DRM_EV_DISPLAY_ADD] \<and>
         slot_state b' 0 = DRM_DISP_CONNECTED \<and>
         walk DRM_DISP_INVALID [DRM_EV_DISPLAY_ADD] DRM_DISP_CONNECTED"
proof -
  from example_run_plug_modeset obtain b' where
    x: "run [Scan (example_device True 0), Modeset (example_device True 0) 0 ''preferred'']
          backend_init = Some b' \<and>
        run_protocol [Scan (example_device True 0), Modeset (example_device True 0) 0 ''preferred'']
          backend_init = Some b' \<and>
        map state (displays b') = [DRM_DISP_CONNECTED] \<and> taken_crtcs b' = 1 \<and>
        events b' = [(0, DRM_EV_DISPLAY_ADD)]" ..
  then have
    r: "run_protocol [Scan (example_device True 0), Modeset (example_device True 0) 0 ''preferred'']
          backend_init = Some b'"
    and s: "map state (displays b') = [DRM_DISP_CONNECTED]"
    and e: "events b' = [(0, DRM_EV_DISPLAY_ADD)]"
    by simp_all
  from s obtain d' where "displays b' = [d']" and "state d' = DRM_DISP_CONNECTED"
    by (cases "displays b'") auto
  then have s': "slot_state b' 0 = DRM_DISP_CONNECTED"
    by (simp add: slot_state_def)
  have i: "slot_state backend_init 0 = DRM_DISP_INVALID"
    by (simp add: slot_state_def backend_init_def)
  have n: "new_events backend_init b' 0 = [DRM_EV_DISPLAY_ADD]"
    using e by (simp add: new_events_def backend_init_def)
  from protocol_run_walks_graph [OF r, of 0] r s' i n show ?thesis
    by simp
qed


text \<open>
  A CONNECTED display without a snapshot and with the flag set is reached from the fresh
  backend: the connector has no current encoder when the modeset runs, and the first page
  flip completes. Freeing it returns at once.
\<close>

lemma display_without_snapshot_reachable:
  "\<exists>b. run [Scan (example_device True 0), Modeset (example_device True 0) 0 ''preferred'',
              Event [0]] backend_init = Some b \<and>
        state (displays b ! 0) = DRM_DISP_CONNECTED \<and> old_crtc (displays b ! 0) = None \<and>
        pageflip_pending (displays b ! 0) \<and>
        wlr_drm_display_free pumps (Some 0) b = Some b"
proof -
  let ?b = "wlr_drm_scan_connectors (example_device True 0) backend_init"
  have d: "displays ?b = [new_display\<lparr>state := DRM_DISP_NEEDS_MODESET, connector := 5\<rparr>]"
    and t: "taken_crtcs ?b = 0"
    by (simp_all add: example_scan_fresh)
  from example_modeset_preferred [OF d _ t, of 0]
  obtain b1 where m: "wlr_drm_display_modeset (example_device True 0) 0 ''preferred'' ?b
                     = Returned (True, b1)"
    and s: "map state (displays b1) = [DRM_DISP_CONNECTED]"
    and o: "map old_crtc (displays b1) = [None]"
    by (auto simp: new_display_def)
  from s o obtain d1 where d1: "displays b1 = [d1]" "state d1 = DRM_DISP_CONNECTED"
    "old_crtc d1 = None"
    by (cases "displays b1") auto
  let ?b2 = "wlr_drm_event [0] b1"
  have r: "run [Scan (example_device True 0), Modeset (example_device True 0) 0 ''preferred'',
              Event [0]] backend_init = Some ?b2"
    using m d d1 by simp
  have f: "state (displays ?b2 ! 0) = DRM_DISP_CONNECTED" "old_crtc (displays ?b2 ! 0) = None"
    "pageflip_pending (displays ?b2 ! 0)"
    using d1 by (simp_all add: wlr_drm_event_def drmHandleEvent_def page_flip_handler_displays)
  then have "wlr_drm_display_free pumps (Some 0) ?b2 = Some ?b2"
    by (simp add: wlr_drm_display_free_def)
  with r f show ?thesis by blast
qed

section \<open>Properties of the CRTC mask\<close>

subsection \<open>Calls that keep the CRTC assignment\<close>

lemma keeps_backed:
  assumes "keeps_crtcs b b'" and "crtcs_backed cs b"
  shows "crtcs_backed cs b'"
  unfolding crtcs_backed_def
proof (intro allI impI)
  fix k
  assume "k < length (displays b')" and "state (displays b' ! k) = DRM_DISP_CONNECTED"
  with assms(1) have "k < length (displays b)" "state (displays b ! k) = DRM_DISP_CONNECTED"
    "crtc (displays b' ! k) = crtc (displays b ! k)" "taken_crtcs b' = taken_crtcs b"
    by (simp_all add: keeps_crtcs_def)
  with assms(2) show "\<exists>j<length cs. bit (taken_crtcs b') j \<and> crtc (displays b' ! k) = cs ! j"
    by (simp add: crtcs_backed_def)
qed

lemma keeps_exclusive:
  assumes "keeps_crtcs b b'" and "crtcs_exclusive b"
  shows "crtcs_exclusive b'"
  unfolding crtcs_exclusive_def
proof (intro allI impI)
  fix k l
  assume "k < length (displays b')" and "l < length (displays b')" and "k \<noteq> l"
    and "state (displays b' ! k) = DRM_DISP_CONNECTED"
    and "state (displays b' ! l) = DRM_DISP_CONNECTED"
  with assms(1) have "k < length (displays b)" "state (displays b ! k) = DRM_DISP_CONNECTED"
    "crtc (displays b' ! k) = crtc (displays b ! k)"
    "l < length (displays b)" "state (displays b ! l) = DRM_DISP_CONNECTED"
    "crtc (displays b' ! l) = crtc (displays b ! l)"
    by (simp_all add: keeps_crtcs_def)
  with assms(2) \<open>k \<noteq> l\<close> show "crtc (displays b' ! k) \<noteq> crtc (displays b' ! l)"
    by (simp add: crtcs_exclusive_def)
qed

lemma modeset_failed_keeps:
  assumes "modeset_failed i b b'"
  shows "keeps_crtcs b b'"
  using assms by (auto simp: modeset_failed_def keeps_crtcs_def nth_update_cases split: if_splits)

lemma page_flip_handler_keeps: "keeps_crtcs b (page_flip_handler u b)"
  by (auto simp: keeps_crtcs_def page_flip_handler_def Let_def nth_update_cases)

lemma drmHandleEvent_keeps: "keeps_crtcs b (drmHandleEvent ready b)"
  unfolding drmHandleEvent_def
proof (induction ready arbitrary: b)
  case Nil
  show ?case by (simp add: keeps_crtcs_refl)
next
  case (Cons u us)
  from keeps_crtcs_trans [OF page_flip_handler_keeps Cons.IH] show ?case by simp
qed

lemma display_end_keeps: "keeps_crtcs b (wlr_drm_display_end fb i b)"
  by (auto simp: keeps_crtcs_def wlr_drm_display_end_def nth_update_cases)

lemma display_free_keeps:
  assumes "wlr_drm_display_free pumps disp b = Some b'"
    and "\<forall>i. disp = Some i \<longrightarrow> i < length (displays b)"
  shows "keeps_crtcs b b'"
proof (cases disp)
  case None
  with assms show ?thesis by (simp add: wlr_drm_display_free_def keeps_crtcs_refl)
next
  case (Some i)
  with assms have len: "i < length (displays b)" by simp
  let ?b0 = "upd_display i (\<lambda>d. d\<lparr>cleanup := True\<rparr>) b"
  show ?thesis
  proof (cases "state (displays b ! i) \<noteq> DRM_DISP_CONNECTED \<or> old_crtc (displays b ! i) = None")
    case True
    with assms Some have "b' = b"
      by (auto simp: wlr_drm_display_free_def split: if_splits)
    then show ?thesis by (simp add: keeps_crtcs_refl)
  next
    case False
    then obtain c where c: "old_crtc (displays b ! i) = Some c"
      and st: "state (displays b ! i) = DRM_DISP_CONNECTED"
      by auto
    with assms Some obtain b1 where w: "wait_pageflip pumps 0 i ?b0 = Some b1"
      and b': "b' = restore_crtc c i b1"
      by (auto simp: wlr_drm_display_free_def split: option.splits)
    from wait_pageflip_returns_clear [OF w] len
    have "\<not> pageflip_pending (displays ?b0 ! i)" by simp
    then have "wait_pageflip pumps 0 i ?b0 = Some ?b0"
      by (rule wait_pageflip_clear)
    with w have "b1 = ?b0" by simp
    then show ?thesis
      by (auto simp: b' restore_crtc_def keeps_crtcs_def nth_update_cases)
  qed
qed

subsection \<open>A successful modeset\<close>

lemma modeset_done_backed:
  assumes "i < length (displays b)" and "modeset_done hw i b b'"
    and "\<forall>res. drmModeGetResources hw = Some res \<longrightarrow> crtcs res = cs"
    and "crtcs_backed cs b"
  shows "crtcs_backed cs b'"
proof -
  from assms(2,3) obtain j d' where j: "j < length cs" "j < 32" "\<not> bit (taken_crtcs b) j"
    and t: "taken_crtcs b' = taken_crtcs b OR push_bit j 1"
    and d: "displays b' = (displays b)[i := d']"
    and s: "state d' = DRM_DISP_CONNECTED" "crtc d' = cs ! j"
    by (auto simp: modeset_done_def)
  show ?thesis
    unfolding crtcs_backed_def
  proof (intro allI impI)
    fix k
    assume k: "k < length (displays b')" and c: "state (displays b' ! k) = DRM_DISP_CONNECTED"
    show "\<exists>j<length cs. bit (taken_crtcs b') j \<and> crtc (displays b' ! k) = cs ! j"
    proof (cases "k = i")
      case True
      with j s d k show ?thesis
        by (intro exI [of _ j]) (simp add: t bit_or_iff bit_two_power)
    next
      case False
      with d k c have "k < length (displays b)" "state (displays b ! k) = DRM_DISP_CONNECTED"
        by simp_all
      with assms(4) obtain j' where "j' < length cs" "bit (taken_crtcs b) j'"
        "crtc (displays b ! k) = cs ! j'"
        by (auto simp: crtcs_backed_def)
      with False d show ?thesis
        by (intro exI [of _ j']) (simp add: t bit_or_iff)
    qed
  qed
qed

lemma modeset_done_exclusive:
  assumes "i < length (displays b)" and "modeset_done hw i b b'"
    and "\<forall>res. drmModeGetResources hw = Some res \<longrightarrow> crtcs res = cs"
    and "distinct cs" and "crtcs_backed cs b" and "crtcs_exclusive b"
  shows "crtcs_exclusive b'"
proof -
  from assms(2,3) obtain j d' where j: "j < length cs" "j < 32" "\<not> bit (taken_crtcs b) j"
    and d: "displays b' = (displays b)[i := d']"
    and s: "state d' = DRM_DISP_CONNECTED" "crtc d' = cs ! j"
    by (auto simp: modeset_done_def)
  have other: "crtc (displays b ! k) \<noteq> cs ! j"
    if "k < length (displays b)" "state (displays b ! k) = DRM_DISP_CONNECTED" for k
  proof -
    from assms(5) that obtain j' where j': "j' < length cs" "bit (taken_crtcs b) j'"
      "crtc (displays b ! k) = cs ! j'"
      by (auto simp: crtcs_backed_def)
    with j have "j' \<noteq> j" by auto
    with j j' assms(4) show ?thesis
      by (simp add: nth_eq_iff_index_eq)
  qed
  show ?thesis
    unfolding crtcs_exclusive_def
  proof (intro allI impI)
    fix k l
    assume kl: "k < length (displays b')" "l < length (displays b')" "k \<noteq> l"
      and c: "state (displays b' ! k) = DRM_DISP_CONNECTED"
             "state (displays b' ! l) = DRM_DISP_CONNECTED"
    consider (k) "k = i" "l \<noteq> i" | (l) "l = i" "k \<noteq> i" | (none) "k \<noteq> i" "l \<noteq> i"
      using kl by blast
    then show "crtc (displays b' ! k) \<noteq> crtc (displays b' ! l)"
    proof cases
      case k
      with kl c d s other [of l] show ?thesis by simp
    next
      case l
      with kl c d s other [of k] show ?thesis by simp
    next
      case none
      with kl c d assms(6) show ?thesis
        by (simp add: crtcs_exclusive_def)
    qed
  qed
qed

subsection \<open>Every call keeps the invariant\<close>

lemma exec_keeps_invariant:
  assumes "exec x b = Some b'" and "sees_crtcs cs x" and "distinct cs"
    and "crtcs_backed cs b" and "crtcs_exclusive b"
  shows "crtcs_backed cs b' \<and> crtcs_exclusive b'"
proof (cases x)
  case (Scan hw)
  with assms(1) scan_connectors_rel [of b hw] have "keeps_crtcs b b'" by simp
  with assms(4,5) show ?thesis by (simp add: keeps_backed keeps_exclusive)
next
  case (Modeset hw i str)
  from assms(1) Modeset have i: "i < length (displays b)"
    by (simp split: if_splits)
  from assms(1) Modeset i obtain r where "wlr_drm_display_modeset hw i str b = Returned r"
    and "b' = snd r"
    by (cases "wlr_drm_display_modeset hw i str b") simp_all
  then have "wlr_drm_display_modeset hw i str b = Returned (fst r, b')"
    by simp
  from modeset_cases [OF i this] show ?thesis
  proof
    assume "\<not> fst r \<and> modeset_failed i b b'"
    then have "modeset_failed i b b'" by simp
    then have "keeps_crtcs b b'" by (rule modeset_failed_keeps)
    with assms(4,5) show ?thesis by (simp add: keeps_backed keeps_exclusive)
  next
    assume "fst r \<and> modeset_done hw i b b'"
    then have m: "modeset_done hw i b b'" by simp
    have c: "\<forall>res. drmModeGetResources hw = Some res \<longrightarrow> crtcs res = cs"
      using assms(2) Modeset by (simp split: option.splits)
    from modeset_done_backed [OF i m c assms(4)]
      modeset_done_exclusive [OF i m c assms(3,4,5)]
    show ?thesis by simp
  qed
next
  case (Free pumps disp)
  with assms(1) have "wlr_drm_display_free pumps disp b = Some b'"
    and "\<forall>i. disp = Some i \<longrightarrow> i < length (displays b)"
    by (auto split: option.splits if_splits)
  then have "keeps_crtcs b b'" by (rule display_free_keeps)
  with assms(4,5) show ?thesis by (simp add: keeps_backed keeps_exclusive)
next
  case (End fb i)
  with assms(1) have "b' = wlr_drm_display_end fb i b"
    by (simp split: if_splits)
  then have "keeps_crtcs b b'" by (simp add: display_end_keeps)
  with assms(4,5) show ?thesis by (simp add: keeps_backed keeps_exclusive)
next
  case (Event ready)
  with assms(1) have "b' = drmHandleEvent ready b"
    by (simp add: wlr_drm_event_def split: if_splits)
  then have "keeps_crtcs b b'" by (simp add: drmHandleEvent_keeps)
  with assms(4,5) show ?thesis by (simp add: keeps_backed keeps_exclusive)
qed

lemma run_keeps_invariant:
  assumes "run ops b = Some b'" and "\<forall>x\<in>set ops. sees_crtcs cs x" and "distinct cs"
    and "crtcs_backed cs b" and "crtcs_exclusive b"
  shows "crtcs_backed cs b' \<and> crtcs_exclusive b'"
  using assms
proof (induction ops arbitrary: b)
  case Nil
  then show ?case by simp
next
  case (Cons x xs)
  from Cons.prems(1) obtain b1 where e: "exec x b = Some b1" and r: "run xs b1 = Some b'"
    by (auto split: option.splits)
  from exec_keeps_invariant [OF e _ Cons.prems(3,4,5)] Cons.prems(2)
  have "crtcs_backed cs b1" "crtcs_exclusive b1" by simp_all
  from Cons.IH [OF r _ Cons.prems(3) this] Cons.prems(2) show ?case by simp
qed

subsection \<open>Counting\<close>

lemma popcount_card: "popcount w = card {j. j < 32 \<and> bit w j}"
proof -
  have "popcount w = card {i. i < length [0..<32] \<and> bit w ([0..<32] ! i)}"
    unfolding popcount_def by (rule length_filter_conv_card)
  also have "{i. i < length [0..<32] \<and> bit w ([0..<32] ! i)} = {j. j < 32 \<and> bit w j}"
    by auto
  finally show ?thesis .
qed

lemma connected_le_popcount:
  assumes "crtcs_backed cs b" and "crtcs_exclusive b"
  shows "connected_count b \<le> popcount (taken_crtcs b)"
proof -
  let ?A = "{i. i < length (displays b) \<and> state (displays b ! i) = DRM_DISP_CONNECTED}"
  let ?B = "{j. j < 32 \<and> bit (taken_crtcs b) j}"
  let ?g = "\<lambda>i. crtc (displays b ! i)"
  have fA: "finite ?A" and fB: "finite ?B" by simp_all
  have "connected_count b = card ?A"
    unfolding connected_count_def by (rule length_filter_conv_card)
  also have "\<dots> = card (?g ` ?A)"
  proof (rule card_image [symmetric])
    show "inj_on ?g ?A"
      using assms(2) unfolding inj_on_def crtcs_exclusive_def by blast
  qed
  also have "\<dots> \<le> card ((\<lambda>j. cs ! j) ` ?B)"
  proof (rule card_mono)
    show "finite ((\<lambda>j. cs ! j) ` ?B)" using fB by simp
    show "?g ` ?A \<subseteq> (\<lambda>j. cs ! j) ` ?B"
    proof
      fix c
      assume "c \<in> ?g ` ?A"
      then obtain i where "i < length (displays b)" "state (displays b ! i) = DRM_DISP_CONNECTED"
        and c: "c = crtc (displays b ! i)"
        by auto
      with assms(1) obtain j where "bit (taken_crtcs b) j" "crtc (displays b ! i) = cs ! j"
        by (auto simp: crtcs_backed_def)
      moreover from this(1) have "j < 32"
        using bit_imp_le_length [of "taken_crtcs b" j] by simp
      ultimately show "c \<in> (\<lambda>j. cs ! j) ` ?B"
        using c by auto
    qed
  qed
  also have "\<dots> \<le> card ?B"
    using fB by (rule card_image_le)
  finally show ?thesis by (simp add: popcount_card)
qed

text \<open>
  Claim C3, as the code has it: in every state that a sequence of scans, modesets, frees,
  frame ends and event pumps reaches from a backend without a CONNECTED display (the fresh
  backend is one), on a device whose list of CRTCs stays the same and names no CRTC twice,
  the number of set bits of the CRTC mask is at least the number of CONNECTED displays, and
  no two CONNECTED displays hold the same CRTC.
\<close>

theorem crtc_mask_covers_connected:
  assumes "run ops b0 = Some b" and "connected_count b0 = 0"
    and "distinct cs" and "\<forall>x\<in>set ops. sees_crtcs cs x"
  shows "connected_count b \<le> popcount (taken_crtcs b) \<and> crtcs_exclusive b"
proof -
  have "\<forall>d\<in>set (displays b0). state d \<noteq> DRM_DISP_CONNECTED"
    using assms(2) by (simp add: connected_count_def filter_empty_conv)
  then have "state (displays b0 ! i) \<noteq> DRM_DISP_CONNECTED" if "i < length (displays b0)" for i
    using that nth_mem [of i "displays b0"] by blast
  then have "crtcs_backed cs b0" "crtcs_exclusive b0"
    by (simp_all add: crtcs_backed_def crtcs_exclusive_def)
  from run_keeps_invariant [OF assms(1,4,3) this]
  have "crtcs_backed cs b" "crtcs_exclusive b" by simp_all
  then show ?thesis by (simp add: connected_le_popcount)
qed

lemma example_crtc_balance:
  "crtc_balance [Scan (example_device True 0), Modeset (example_device True 0) 0 ''preferred'',
                 Scan (example_device False 0)] = Some (1, 0)"
proof -
  from example_run_plug_modeset obtain b' where
    x: "run [Scan (example_device True 0), Modeset (example_device True 0) 0 ''preferred'']
          backend_init = Some b' \<and>
        run_protocol [Scan (example_device True 0), Modeset (example_device True 0) 0 ''preferred'']
          backend_init = Some b' \<and>
        map state (displays b') = [DRM_DISP_CONNECTED] \<and> taken_crtcs b' = 1 \<and>
        events b' = [(0, DRM_EV_DISPLAY_ADD)]" ..
  then have r: "run [Scan (example_device True 0), Modeset (example_device True 0) 0 ''preferred'']
          backend_init = Some b'"
    and s: "map state (displays b') = [DRM_DISP_CONNECTED]" and t: "taken_crtcs b' = 1"
    by simp_all
  from s obtain d' where d: "displays b' = [d']" and c: "state d' = DRM_DISP_CONNECTED"
    by (cases "displays b'") auto
  let ?b2 = "wlr_drm_scan_connectors (example_device False 0) b'"
  have "taken_crtcs ?b2 = 1" and "map state (displays ?b2) = [DRM_DISP_DISCONNECTED]"
    using d c t
    by (simp_all add: wlr_drm_scan_connectors_def example_device_def example_connector_def
          scan_connector_def scan_first_seen_def scan_hotplug_def Let_def)
  then obtain d2 where t2: "taken_crtcs ?b2 = 1" and "displays ?b2 = [d2]"
    and "state d2 = DRM_DISP_DISCONNECTED"
    by (cases "displays ?b2") auto
  then have "connected_count ?b2 = 0"
    by (simp add: connected_count_def)
  moreover have "{j. j < 32 \<and> bit (1 :: 32 word) j} = {0}"
    by (auto simp: bit_1_iff)
  then have "popcount (taken_crtcs ?b2) = 1"
    by (simp add: popcount_card t2)
  moreover have "run [Scan (example_device True 0), Modeset (example_device True 0) 0 ''preferred'',
                 Scan (example_device False 0)] backend_init = Some ?b2"
    using r by (auto split: option.splits if_splits)
  ultimately show ?thesis
    by (simp add: crtc_balance_def)
qed

theorem crtc_mask_covers_connected_witness:
  "connected_count backend_init = 0 \<and> distinct [40 :: 32 word] \<and>
   list_all (sees_crtcs [40])
     [Scan (example_device True 0), Modeset (example_device True 0) 0 ''preferred'',
      Scan (example_device False 0)] \<and>
   (\<exists>b. run [Scan (example_device True 0), Modeset (example_device True 0) 0 ''preferred'',
              Scan (example_device False 0)] backend_init = Some b \<and>
        connected_count b \<le> popcount (taken_crtcs b) \<and> crtcs_exclusive b)"
proof -
  let ?ops = "[Scan (example_device True 0), Modeset (example_device True 0) 0 ''preferred'',
               Scan (example_device False 0)]"
  have d: "distinct [40 :: 32 word]" by simp
  have s: "\<forall>x\<in>set ?ops. sees_crtcs [40] x"
    by (simp add: example_device_def)
  from example_crtc_balance obtain b where r: "run ?ops backend_init = Some b"
    by (auto simp: crtc_balance_def)
  from s have l: "list_all (sees_crtcs [40]) ?ops"
    by (simp only: list_all_iff)
  have c: "connected_count backend_init = 0"
    by (simp add: connected_count_def backend_init_def)
  from crtc_mask_covers_connected [OF r c d s] r c d l show ?thesis
    by blast
qed

text \<open>
  No call clears a bit of the mask. After a monitor is attached, set up and detached again,
  one bit is set and no display is CONNECTED.
\<close>

theorem crtc_bit_outlives_display_counterexample:
  "crtc_balance [Scan (example_device True 0), Modeset (example_device True 0) 0 ''preferred'',
                 Scan (example_device False 0)] = Some (1, 0)"
  by (rule example_crtc_balance)

end
